theory Spec2Isabelle
  imports Main
begin

section \<open>The union-find structure of \<^verbatim>\<open>src/graph/unionFind.cpp\<close>\<close>

text \<open>
  The struct \<^verbatim>\<open>union_find\<close> keeps three parallel vectors. Element identifiers and
  the entries of the vectors are C++ \<^verbatim>\<open>int\<close>s; they are modelled as \<open>int\<close>. The only
  arithmetic of the source is \<^verbatim>\<open>component_size[gravity] += component_size[pebble]\<close> and
  the loop counters; lemma \<open>reachable_size_bounds\<close> below shows that on every structure
  built by the constructor and the operations each stored size lies between 0 and the
  element count, so no 32-bit overflow can arise there.
\<close>

record union_find =
  component_size :: "int list"
  repr :: "int list"
  additionalInfo :: "(int \<times> int) list"

text \<open>
  Outcomes other than a normal return. The source contains no \<^verbatim>\<open>throw\<close> and no check
  of an index: \<^verbatim>\<open>operator[]\<close> of \<^verbatim>\<open>std::vector\<close> is unchecked, and an index outside
  the vector is undefined behaviour, which is what \<open>UndefinedBehaviour\<close> stands for.
  \<open>IndexOutOfRange\<close> and \<open>InvalidArgument\<close> are the two error kinds of the
  specification's taxonomy; no function of the source produces them (lemmas
  \<open>find_uf_error\<close>, \<open>size_uf_error\<close>, \<open>merge_error\<close> and \<open>get_error\<close> below).
\<close>

datatype error = IndexOutOfRange | InvalidArgument | UndefinedBehaviour

text \<open>
  A call either does not return (\<open>None\<close>: the recursion of \<^verbatim>\<open>find\<close> on a cyclic
  \<^verbatim>\<open>repr\<close>), or runs into undefined behaviour (\<open>Some (Inl e)\<close>), or returns
  (\<open>Some (Inr v)\<close>, the value together with the structure as the call leaves it).
\<close>

type_synonym 'a result = "(error + 'a) option"

definition in_range :: "'a list \<Rightarrow> int \<Rightarrow> bool" where
  "in_range v i \<longleftrightarrow> 0 \<le> i \<and> i < int (length v)"

subsection \<open>Constructor\<close>

function init_loop :: "int \<Rightarrow> int \<Rightarrow> union_find \<Rightarrow> union_find" where
  "init_loop i number_of_elements s =
     (if i < number_of_elements
      then init_loop (i + 1) number_of_elements
             (s\<lparr>repr := repr s @ [i],
                component_size := component_size s @ [1],
                additionalInfo := additionalInfo s @ [(i, i)]\<rparr>)
      else s)"
  by pat_completeness auto
termination
  by (relation "measure (\<lambda>(i, n, s). nat (n - i))") auto

declare init_loop.simps [simp del]

definition union_find :: "int \<Rightarrow> union_find" where
  "union_find number_of_elements =
     init_loop 0 number_of_elements
       \<lparr>component_size = [], repr = [], additionalInfo = []\<rparr>"

subsection \<open>find\<close>

partial_function (option) find_uf :: "union_find \<Rightarrow> int \<Rightarrow> (int \<times> union_find) result" where
  "find_uf s a =
     (if \<not> in_range (repr s) a then Some (Inl UndefinedBehaviour)
      else if repr s ! nat a = a then Some (Inr (a, s))
      else
        Option.bind (find_uf s (repr s ! nat a))
          (\<lambda>res. case res of
             Inl e \<Rightarrow> Some (Inl e)
           | Inr (r, s') \<Rightarrow>
               if \<not> in_range (repr s') a then Some (Inl UndefinedBehaviour)
               else
                 (let s'' = s'\<lparr>repr := (repr s')[nat a := r]\<rparr>
                  in Some (Inr (repr s'' ! nat a, s'')))))"

declare find_uf.simps [code]

subsection \<open>size\<close>

definition size_uf :: "union_find \<Rightarrow> int \<Rightarrow> (int \<times> union_find) result" where
  "size_uf s a =
     (case find_uf s a of
        None \<Rightarrow> None
      | Some (Inl e) \<Rightarrow> Some (Inl e)
      | Some (Inr (a', s')) \<Rightarrow>
          if \<not> in_range (component_size s') a' then Some (Inl UndefinedBehaviour)
          else Some (Inr (component_size s' ! nat a', s')))"

subsection \<open>merge\<close>

text \<open>
  Lines 57 to 70 of \<^verbatim>\<open>merge\<close>, run on the two representatives once they are known
  to differ: the size heuristic with its swap, the merge step, and the update of the
  additional information, each assignment in the order of the source.
\<close>

definition merge_step :: "union_find \<Rightarrow> int \<Rightarrow> int \<Rightarrow> error + union_find" where
  "merge_step s gravity0 pebble0 =
     (if \<not> (in_range (component_size s) pebble0 \<and> in_range (component_size s) gravity0)
      then Inl UndefinedBehaviour
      else
        let (gravity, pebble) =
              (if component_size s ! nat pebble0 > component_size s ! nat gravity0
               then (pebble0, gravity0) else (gravity0, pebble0))
        in
          if \<not> (in_range (repr s) pebble \<and> in_range (additionalInfo s) gravity
                \<and> in_range (additionalInfo s) pebble)
          then Inl UndefinedBehaviour
          else
            let s1 = s\<lparr>repr := (repr s)[nat pebble := gravity]\<rparr>;
                s2 = s1\<lparr>component_size := (component_size s1)
                         [nat gravity := component_size s1 ! nat gravity
                                         + component_size s1 ! nat pebble]\<rparr>;
                s3 = s2\<lparr>component_size := (component_size s2)[nat pebble := 0]\<rparr>;
                s4 = s3\<lparr>additionalInfo := (additionalInfo s3)
                         [nat gravity :=
                            (min (fst (additionalInfo s3 ! nat gravity))
                                 (fst (additionalInfo s3 ! nat pebble)),
                             snd (additionalInfo s3 ! nat gravity))]\<rparr>;
                s5 = s4\<lparr>additionalInfo := (additionalInfo s4)
                         [nat gravity :=
                            (fst (additionalInfo s4 ! nat gravity),
                             max (snd (additionalInfo s4 ! nat gravity))
                                 (snd (additionalInfo s4 ! nat pebble)))]\<rparr>
            in Inr s5)"

definition merge :: "union_find \<Rightarrow> int \<Rightarrow> int \<Rightarrow> union_find result" where
  "merge s gravity pebble =
     (case find_uf s gravity of
        None \<Rightarrow> None
      | Some (Inl e) \<Rightarrow> Some (Inl e)
      | Some (Inr (gravity', s1)) \<Rightarrow>
          (case find_uf s1 pebble of
             None \<Rightarrow> None
           | Some (Inl e) \<Rightarrow> Some (Inl e)
           | Some (Inr (pebble', s2)) \<Rightarrow>
               if gravity' = pebble' then Some (Inr s2)
               else Some (merge_step s2 gravity' pebble')))"

subsection \<open>count\_islands\<close>

fun count_loop :: "int list \<Rightarrow> int \<Rightarrow> int" where
  "count_loop [] count = count"
| "count_loop (el # els) count = count_loop els (if el > 0 then count + 1 else count)"

definition count_islands :: "union_find \<Rightarrow> int" where
  "count_islands s = count_loop (component_size s) 0"

subsection \<open>get\<close>

definition get :: "union_find \<Rightarrow> int \<Rightarrow> int \<Rightarrow> (bool \<times> union_find) result" where
  "get s u v =
     (case find_uf s u of
        None \<Rightarrow> None
      | Some (Inl e) \<Rightarrow> Some (Inl e)
      | Some (Inr (u', s1)) \<Rightarrow>
          (case find_uf s1 v of
             None \<Rightarrow> None
           | Some (Inl e) \<Rightarrow> Some (Inl e)
           | Some (Inr (v', s2)) \<Rightarrow>
               Some (Inr (if u' = v' then True else False, s2))))"

section \<open>Specification-level notions\<close>

text \<open>
  \<open>root_of l a r\<close>: following \<open>l\<close> from \<open>a\<close>, each step inside the vector, ends
  at the fixed point \<open>r\<close>. \<open>visited l a b\<close>: \<open>b\<close> is one of the nodes on that walk,
  \<open>a\<close> and the fixed point included.
\<close>

inductive root_of :: "int list \<Rightarrow> int \<Rightarrow> int \<Rightarrow> bool" for l where
  root: "in_range l a \<Longrightarrow> l ! nat a = a \<Longrightarrow> root_of l a a"
| step: "in_range l a \<Longrightarrow> l ! nat a \<noteq> a \<Longrightarrow> root_of l (l ! nat a) r \<Longrightarrow> root_of l a r"

inductive visited :: "int list \<Rightarrow> int \<Rightarrow> int \<Rightarrow> bool" for l where
  here: "in_range l a \<Longrightarrow> visited l a a"
| further: "in_range l a \<Longrightarrow> l ! nat a \<noteq> a \<Longrightarrow> visited l (l ! nat a) b \<Longrightarrow> visited l a b"

definition representative :: "union_find \<Rightarrow> int \<Rightarrow> bool" where
  "representative s r \<longleftrightarrow> in_range (repr s) r \<and> repr s ! nat r = r"

definition component :: "union_find \<Rightarrow> int \<Rightarrow> int set" where
  "component s r = {a. root_of (repr s) a r}"

text \<open>
  The structures that the constructor and the operations can produce for an element
  count \<open>n\<close>. An operation that runs into undefined behaviour has no successor.
\<close>

inductive reachable :: "int \<Rightarrow> union_find \<Rightarrow> bool" for n where
  r_new: "reachable n (union_find n)"
| r_find: "reachable n s \<Longrightarrow> find_uf s a = Some (Inr (r, s')) \<Longrightarrow> reachable n s'"
| r_size: "reachable n s \<Longrightarrow> size_uf s a = Some (Inr (k, s')) \<Longrightarrow> reachable n s'"
| r_merge: "reachable n s \<Longrightarrow> merge s x y = Some (Inr s') \<Longrightarrow> reachable n s'"
| r_get: "reachable n s \<Longrightarrow> get s u v = Some (Inr (b, s')) \<Longrightarrow> reachable n s'"

text \<open>The invariant of the data model (section 3 of the specification).\<close>

definition uf_inv :: "int \<Rightarrow> union_find \<Rightarrow> bool" where
  "uf_inv n s \<longleftrightarrow>
     length (repr s) = nat n \<and> length (component_size s) = nat n
     \<and> length (additionalInfo s) = nat n
     \<and> (\<forall>a. in_range (repr s) a \<longrightarrow> (\<exists>r. root_of (repr s) a r))
     \<and> (\<forall>r. representative s r \<longrightarrow>
            component_size s ! nat r = int (card (component s r))
            \<and> additionalInfo s ! nat r = (Min (component s r), Max (component s r)))
     \<and> (\<forall>a. in_range (repr s) a \<and> \<not> representative s a \<longrightarrow> component_size s ! nat a = 0)"

text \<open>
  What one call \<^verbatim>\<open>find(a)\<close> with result \<open>r\<close> does to the structure: the sizes and
  the additional information are untouched, and exactly the entries of \<^verbatim>\<open>repr\<close> at
  the visited nodes are overwritten with \<open>r\<close>.
\<close>

definition compressed :: "union_find \<Rightarrow> int \<Rightarrow> int \<Rightarrow> union_find \<Rightarrow> bool" where
  "compressed s a r s' \<longleftrightarrow>
     component_size s' = component_size s \<and> additionalInfo s' = additionalInfo s
     \<and> length (repr s') = length (repr s)
     \<and> (\<forall>b. in_range (repr s) b \<longrightarrow>
            repr s' ! nat b = (if visited (repr s) a b then r else repr s ! nat b))"

text \<open>
  The structure after the representative \<open>pebble\<close> has been hung below the
  representative \<open>gravity\<close>: the net effect of lines 63 to 70 for two different indices.
\<close>

definition link :: "union_find \<Rightarrow> int \<Rightarrow> int \<Rightarrow> union_find" where
  "link s gravity pebble =
     \<lparr>component_size = (component_size s)
        [nat gravity := component_size s ! nat gravity + component_size s ! nat pebble,
         nat pebble := 0],
      repr = (repr s)[nat pebble := gravity],
      additionalInfo = (additionalInfo s)
        [nat gravity := (min (fst (additionalInfo s ! nat gravity))
                             (fst (additionalInfo s ! nat pebble)),
                         max (snd (additionalInfo s ! nat gravity))
                             (snd (additionalInfo s ! nat pebble)))]\<rparr>"

text \<open>
  The scenario of the specification (section 8, item 7): five elements, then
  \<^verbatim>\<open>merge(0,1)\<close>, \<^verbatim>\<open>merge(2,3)\<close>, \<^verbatim>\<open>merge(1,2)\<close>. The three structures
  after each call are written out; \<open>scenario_steps\<close> below derives them from the code.
\<close>

definition scenario1 :: union_find where
  "scenario1 = \<lparr>component_size = [2, 0, 1, 1, 1], repr = [0, 0, 2, 3, 4],
                 additionalInfo = [(0, 1), (1, 1), (2, 2), (3, 3), (4, 4)]\<rparr>"

definition scenario2 :: union_find where
  "scenario2 = \<lparr>component_size = [2, 0, 2, 0, 1], repr = [0, 0, 2, 2, 4],
                 additionalInfo = [(0, 1), (1, 1), (2, 3), (3, 3), (4, 4)]\<rparr>"

definition scenario3 :: union_find where
  "scenario3 = \<lparr>component_size = [4, 0, 0, 0, 1], repr = [0, 0, 0, 2, 4],
                 additionalInfo = [(0, 3), (1, 1), (2, 3), (3, 3), (4, 4)]\<rparr>"

section \<open>Walks along \<^verbatim>\<open>repr\<close>\<close>

lemma in_range_nth: "in_range l a \<Longrightarrow> nat a < length l"
  by (auto simp: in_range_def)

lemma root_of_det: "root_of l a r \<Longrightarrow> root_of l a r' \<Longrightarrow> r = r'"
proof (induction arbitrary: r' rule: root_of.induct)
  case (root a)
  then show ?case by (auto elim: root_of.cases)
next
  case (step a r)
  from step.prems step.hyps(1,2) have "root_of l (l ! nat a) r'"
    by (auto elim: root_of.cases)
  then show ?case by (rule step.IH)
qed

lemma root_of_is_root: "root_of l a r \<Longrightarrow> in_range l r \<and> l ! nat r = r"
  by (induction rule: root_of.induct) auto

lemma root_of_in_range: "root_of l a r \<Longrightarrow> in_range l a"
  by (auto elim: root_of.cases)

lemma root_of_root_iff: "in_range l r \<Longrightarrow> l ! nat r = r \<Longrightarrow> root_of l r r' \<longleftrightarrow> r' = r"
  by (auto elim: root_of.cases intro: root_of.root)

lemma visited_root: "root_of l a r \<Longrightarrow> visited l a r"
  by (induction rule: root_of.induct) (auto intro: visited.intros)

lemma visited_unfold:
  "visited l a b \<longleftrightarrow> in_range l a \<and> (b = a \<or> (l ! nat a \<noteq> a \<and> visited l (l ! nat a) b))"
  by (auto elim: visited.cases intro: visited.intros)

lemma visited_in_range: "visited l a b \<Longrightarrow> in_range l b"
  by (induction rule: visited.induct) auto

lemma visited_same_root: "visited l a b \<Longrightarrow> root_of l a r \<Longrightarrow> root_of l b r"
proof (induction rule: visited.induct)
  case (here a) then show ?case by simp
next
  case (further a b)
  from further.prems further.hyps(1,2) have "root_of l (l ! nat a) r"
    by (auto elim: root_of.cases)
  then show ?case by (rule further.IH)
qed

section \<open>The effect of find\<close>

lemma find_uf_root:
  assumes "root_of (repr s) a r"
  shows "\<exists>s'. find_uf s a = Some (Inr (r, s')) \<and> compressed s a r s'"
  using assms
proof (induction rule: root_of.induct)
  case (root a)
  have "find_uf s a = Some (Inr (a, s))"
    using root by (subst find_uf.simps) simp
  moreover have "compressed s a a s"
    using root by (auto simp: compressed_def elim: visited.cases)
  ultimately show ?case by blast
next
  case (step a r)
  then obtain s1 where s1: "find_uf s (repr s ! nat a) = Some (Inr (r, s1))"
    and c1: "compressed s (repr s ! nat a) r s1" by blast
  let ?s' = "s1\<lparr>repr := (repr s1)[nat a := r]\<rparr>"
  have len: "length (repr s1) = length (repr s)" using c1 by (simp add: compressed_def)
  have ra: "in_range (repr s1) a" using step.hyps(1) len by (simp add: in_range_def)
  have "find_uf s a = Some (Inr (r, ?s'))"
    using step.hyps(1,2) s1 ra
    by (subst find_uf.simps) (simp add: Let_def in_range_nth)
  moreover have "compressed s a r ?s'"
    unfolding compressed_def
  proof (intro conjI allI impI)
    fix b assume b: "in_range (repr s) b"
    show "repr ?s' ! nat b = (if visited (repr s) a b then r else repr s ! nat b)"
    proof (cases "b = a")
      case True
      then show ?thesis using ra step.hyps(1) by (simp add: in_range_nth visited.here)
    next
      case False
      have "visited (repr s) a b \<longleftrightarrow> visited (repr s) (repr s ! nat a) b"
        using False step.hyps(1,2) by (subst visited_unfold) auto
      moreover have "nat b \<noteq> nat a" using False b step.hyps(1) by (auto simp: in_range_def)
      ultimately show ?thesis using c1 b by (simp add: compressed_def)
    qed
  qed (use c1 in \<open>simp_all add: compressed_def\<close>)
  ultimately show ?case by blast
qed

lemma compressed_root_of:
  assumes ar: "root_of (repr s) a r" and c: "compressed s a r s'"
    and bq: "root_of (repr s) b q"
  shows "root_of (repr s') b q"
  using bq
proof (induction rule: root_of.induct)
  case (root b)
  have rb: "in_range (repr s') b" using root c by (simp add: compressed_def in_range_def)
  have "visited (repr s) a b \<Longrightarrow> r = b"
    using visited_same_root[OF _ ar] root root_of_root_iff by blast
  then have "repr s' ! nat b = b" using c root by (auto simp: compressed_def)
  then show ?case using rb by (auto intro: root_of.root)
next
  case (step b q)
  have rb: "in_range (repr s') b" using step c by (simp add: compressed_def in_range_def)
  show ?case
  proof (cases "visited (repr s) a b")
    case False
    then have "repr s' ! nat b = repr s ! nat b" using c step.hyps(1) by (simp add: compressed_def)
    then show ?thesis using step rb by (auto intro: root_of.step)
  next
    case True
    have bq: "root_of (repr s) b q" using step.hyps by (rule root_of.step)
    have "root_of (repr s) b r" using visited_same_root[OF True ar] .
    then have qr: "q = r" using bq root_of_det by blast
    have rr: "in_range (repr s) r" "repr s ! nat r = r" using root_of_is_root[OF ar] by auto
    have "r \<noteq> b" using rr step.hyps(2) by auto
    have "repr s' ! nat r = r" using c rr by (simp add: compressed_def)
    moreover have "in_range (repr s') r" using rr c by (simp add: compressed_def in_range_def)
    ultimately have "root_of (repr s') r r" by (auto intro: root_of.root)
    moreover have "repr s' ! nat b = r" using c step.hyps(1) True by (simp add: compressed_def)
    ultimately show ?thesis using rb \<open>r \<noteq> b\<close> qr by (auto intro: root_of.step)
  qed
qed

lemma compressed_root_of_iff:
  assumes tot: "\<forall>a. in_range (repr s) a \<longrightarrow> (\<exists>r. root_of (repr s) a r)"
    and ar: "root_of (repr s) a r" and c: "compressed s a r s'"
  shows "root_of (repr s') b q \<longleftrightarrow> root_of (repr s) b q"
proof
  assume "root_of (repr s) b q" then show "root_of (repr s') b q"
    using compressed_root_of[OF ar c] by blast
next
  assume h: "root_of (repr s') b q"
  then have "in_range (repr s) b" using root_of_in_range[OF h] c by (simp add: compressed_def in_range_def)
  then obtain q' where q': "root_of (repr s) b q'" using tot by blast
  then have "root_of (repr s') b q'" using compressed_root_of[OF ar c] by blast
  then have "q' = q" using h root_of_det by blast
  then show "root_of (repr s) b q" using q' by simp
qed

lemma representative_root_of: "representative s r \<longleftrightarrow> root_of (repr s) r r"
  by (auto simp: representative_def intro: root_of.root dest: root_of_is_root)

lemma uf_inv_same_roots:
  assumes "uf_inv n s" and "\<And>b q. root_of (repr s') b q \<longleftrightarrow> root_of (repr s) b q"
    and "component_size s' = component_size s" and "additionalInfo s' = additionalInfo s"
    and "length (repr s') = length (repr s)"
  shows "uf_inv n s'"
proof -
  have "component s' = component s" using assms(2) by (auto simp: component_def fun_eq_iff)
  moreover have "representative s' = representative s"
    using assms(2) by (auto simp: representative_root_of fun_eq_iff)
  moreover have "in_range (repr s') = in_range (repr s)"
    using assms(5) by (auto simp: in_range_def fun_eq_iff)
  moreover have "root_of (repr s') = root_of (repr s)"
    using assms(2) by (auto simp: fun_eq_iff)
  ultimately show ?thesis using assms(1,3,4,5) unfolding uf_inv_def by simp
qed

lemma find_uf_inv:
  assumes inv: "uf_inv n s" and a: "in_range (repr s) a"
  shows "\<exists>r s'. find_uf s a = Some (Inr (r, s')) \<and> root_of (repr s) a r
           \<and> compressed s a r s' \<and> uf_inv n s'
           \<and> (\<forall>b q. root_of (repr s') b q \<longleftrightarrow> root_of (repr s) b q)"
proof -
  have tot: "\<forall>a. in_range (repr s) a \<longrightarrow> (\<exists>r. root_of (repr s) a r)"
    using inv by (simp add: uf_inv_def)
  then obtain r where r: "root_of (repr s) a r" using a by blast
  then obtain s' where s': "find_uf s a = Some (Inr (r, s'))" "compressed s a r s'"
    using find_uf_root by blast
  have iff: "\<And>b q. root_of (repr s') b q \<longleftrightarrow> root_of (repr s) b q"
    using compressed_root_of_iff[OF tot r s'(2)] by blast
  have "uf_inv n s'"
    using uf_inv_same_roots[OF inv iff] s'(2) by (simp add: compressed_def)
  then show ?thesis using r s' iff by blast
qed

lemma find_uf_out_of_range: "\<not> in_range (repr s) a \<Longrightarrow> find_uf s a = Some (Inl UndefinedBehaviour)"
  by (subst find_uf.simps) simp

section \<open>The constructor\<close>

lemma init_loop_closed:
  "init_loop i n s =
     s\<lparr>repr := repr s @ [i..n - 1],
       component_size := component_size s @ replicate (nat (n - i)) 1,
       additionalInfo := additionalInfo s @ map (\<lambda>k. (k, k)) [i..n - 1]\<rparr>"
proof (induction i n s rule: init_loop.induct)
  case (1 i n s)
  show ?case
  proof (cases "i < n")
    case True
    have u: "[i..n - 1] = i # [i + 1..n - 1]" using True by (simp add: upto_rec1)
    have r: "replicate (nat (n - i)) (1::int) = 1 # replicate (nat (n - (i + 1))) 1"
    proof -
      have "nat (n - i) = Suc (nat (n - (i + 1)))" using True by simp
      then show ?thesis by simp
    qed
    show ?thesis
      by (subst init_loop.simps) (simp add: True "1.IH" u r)
  next
    case False
    then show ?thesis by (subst init_loop.simps) simp
  qed
qed

lemma union_find_closed:
  "union_find n =
     \<lparr>component_size = replicate (nat n) 1, repr = [0..n - 1],
      additionalInfo = map (\<lambda>k. (k, k)) [0..n - 1]\<rparr>"
  by (simp add: union_find_def init_loop_closed)

lemma nth_upto0: "0 \<le> a \<Longrightarrow> a < n \<Longrightarrow> [0..n - 1] ! nat a = a"
  by (simp add: nth_upto)

lemma union_find_root:
  "root_of (repr (union_find n)) b q \<longleftrightarrow> 0 \<le> b \<and> b < n \<and> q = b"
proof -
  have r: "\<And>b. in_range (repr (union_find n)) b \<longleftrightarrow> 0 \<le> b \<and> b < n"
    by (auto simp: union_find_closed in_range_def)
  have "\<And>b. 0 \<le> b \<Longrightarrow> b < n \<Longrightarrow> repr (union_find n) ! nat b = b"
    by (simp add: union_find_closed nth_upto0)
  then show ?thesis using r
    by (metis root_of_root_iff root_of_in_range)
qed

lemma union_find_inv: "uf_inv n (union_find n)"
proof -
  let ?s = "union_find n"
  have r: "\<And>b. in_range (repr ?s) b \<longleftrightarrow> 0 \<le> b \<and> b < n"
    by (auto simp: union_find_closed in_range_def)
  have c: "\<And>r. representative ?s r \<Longrightarrow> component ?s r = {r}"
    by (auto simp: component_def representative_root_of union_find_root)
  have cs: "\<And>r. in_range (repr ?s) r \<Longrightarrow> component_size ?s ! nat r = 1"
    by (auto simp: union_find_closed in_range_def split: if_splits)
  have ai: "\<And>r. in_range (repr ?s) r \<Longrightarrow> additionalInfo ?s ! nat r = (r, r)"
    by (auto simp: union_find_closed in_range_def nth_upto0 split: if_splits)
  have rp: "\<And>r. representative ?s r \<longleftrightarrow> in_range (repr ?s) r"
    by (simp add: representative_root_of union_find_root r)
  show ?thesis
    unfolding uf_inv_def
  proof (intro conjI allI impI)
    fix a assume "in_range (repr ?s) a"
    then show "\<exists>r. root_of (repr ?s) a r" by (auto simp: union_find_root r)
  next
    fix r assume h: "representative ?s r"
    show "component_size ?s ! nat r = int (card (component ?s r))"
      using h by (simp add: c cs rp)
    show "additionalInfo ?s ! nat r = (Min (component ?s r), Max (component ?s r))"
      using h by (simp add: c ai rp)
  next
    fix a assume "in_range (repr ?s) a \<and> \<not> representative ?s a"
    then show "component_size ?s ! nat a = 0" by (simp add: rp)
  qed (simp_all add: union_find_closed)
qed

section \<open>Hanging one representative below another\<close>

lemma link_root_of:
  assumes g: "in_range l g" "l ! nat g = g" and p: "in_range l p" "l ! nat p = p"
    and ne: "g \<noteq> p" and bq: "root_of l b q"
  shows "root_of (l[nat p := g]) b (if q = p then g else q)"
  using bq
proof (induction rule: root_of.induct)
  case (root b)
  have gg: "root_of (l[nat p := g]) g g"
    using g p ne by (intro root_of.root) (auto simp: in_range_def nth_list_update)
  show ?case
  proof (cases "b = p")
    case True
    have "in_range (l[nat p := g]) p" using p by (simp add: in_range_def)
    moreover have "l[nat p := g] ! nat p = g" using p(1) by (simp add: in_range_nth)
    ultimately show ?thesis using gg ne True by (auto intro: root_of.step)
  next
    case False
    then have "nat b \<noteq> nat p" using root p by (auto simp: in_range_def)
    then show ?thesis using root False by (auto intro!: root_of.root simp: in_range_def)
  qed
next
  case (step b q)
  have "b \<noteq> p" using step.hyps(2) p by auto
  then have "nat b \<noteq> nat p" using step.hyps(1) p by (auto simp: in_range_def)
  then have "l[nat p := g] ! nat b = l ! nat b" by simp
  moreover have "in_range (l[nat p := g]) b" using step.hyps(1) by (simp add: in_range_def)
  ultimately show ?case using step.IH step.hyps(2) by (auto intro: root_of.step)
qed

lemma link_root_of_iff:
  assumes tot: "\<forall>a. in_range l a \<longrightarrow> (\<exists>r. root_of l a r)"
    and g: "in_range l g" "l ! nat g = g" and p: "in_range l p" "l ! nat p = p"
    and ne: "g \<noteq> p"
  shows "root_of (l[nat p := g]) b q \<longleftrightarrow>
           (if q = g then root_of l b g \<or> root_of l b p else q \<noteq> p \<and> root_of l b q)"
proof -
  have fwd: "\<And>b q. root_of l b q \<Longrightarrow> root_of (l[nat p := g]) b (if q = p then g else q)"
    using link_root_of[OF g p ne] by blast
  show ?thesis
  proof
    assume h: "root_of (l[nat p := g]) b q"
    then have "in_range l b" using root_of_in_range[OF h] by (simp add: in_range_def)
    then obtain q0 where q0: "root_of l b q0" using tot by blast
    then have "q = (if q0 = p then g else q0)" using fwd[OF q0] h root_of_det by blast
    then show "if q = g then root_of l b g \<or> root_of l b p else q \<noteq> p \<and> root_of l b q"
      using q0 by (auto split: if_splits)
  next
    assume "if q = g then root_of l b g \<or> root_of l b p else q \<noteq> p \<and> root_of l b q"
    then show "root_of (l[nat p := g]) b q"
      using fwd[of b g] fwd[of b p] fwd[of b q] ne by (auto split: if_splits)
  qed
qed

lemma component_finite: "finite (component s r)"
proof -
  have "component s r \<subseteq> {0..<int (length (repr s))}"
    by (auto simp: component_def in_range_def dest: root_of_in_range)
  then show ?thesis by (rule finite_subset) simp
qed

lemma component_disjoint: "r \<noteq> r' \<Longrightarrow> component s r \<inter> component s r' = {}"
  by (auto simp: component_def dest: root_of_det)

lemma representative_in_component: "representative s r \<Longrightarrow> r \<in> component s r"
  by (simp add: component_def representative_root_of)

lemma merge_step_link:
  assumes "in_range (repr s) g" "in_range (repr s) p" "g \<noteq> p"
    and "length (component_size s) = length (repr s)"
    and "length (additionalInfo s) = length (repr s)"
  shows "merge_step s g p =
           Inr (if component_size s ! nat p > component_size s ! nat g
                then link s p g else link s g p)"
proof -
  have n: "nat g \<noteq> nat p" "nat g < length (repr s)" "nat p < length (repr s)"
    using assms(1,2,3) by (auto simp: in_range_def)
  show ?thesis
    using assms n
    by (simp add: merge_step_def link_def in_range_def Let_def list_update_swap)
qed

lemma link_inv:
  assumes inv: "uf_inv n s" and g: "representative s g" and p: "representative s p"
    and ne: "g \<noteq> p"
  shows "uf_inv n (link s g p)"
    and "\<And>b q. root_of (repr (link s g p)) b q \<longleftrightarrow>
           (if q = g then root_of (repr s) b g \<or> root_of (repr s) b p
            else q \<noteq> p \<and> root_of (repr s) b q)"
proof -
  let ?s' = "link s g p"
  have tot: "\<forall>a. in_range (repr s) a \<longrightarrow> (\<exists>r. root_of (repr s) a r)"
    using inv by (simp add: uf_inv_def)
  have len: "length (repr s) = nat n" "length (component_size s) = nat n"
    "length (additionalInfo s) = nat n"
    using inv by (simp_all add: uf_inv_def)
  have gr: "in_range (repr s) g" "repr s ! nat g = g" using g by (simp_all add: representative_def)
  have pr: "in_range (repr s) p" "repr s ! nat p = p" using p by (simp_all add: representative_def)
  have nn: "nat g \<noteq> nat p" "nat g < nat n" "nat p < nat n"
    using gr(1) pr(1) ne len by (auto simp: in_range_def split: if_splits)
  have rl: "repr ?s' = (repr s)[nat p := g]" by (simp add: link_def)
  have cl: "component_size ?s' = (component_size s)
        [nat g := component_size s ! nat g + component_size s ! nat p, nat p := 0]"
    by (simp add: link_def)
  have al: "additionalInfo ?s' = (additionalInfo s)
        [nat g := (min (fst (additionalInfo s ! nat g)) (fst (additionalInfo s ! nat p)),
                   max (snd (additionalInfo s ! nat g)) (snd (additionalInfo s ! nat p)))]"
    by (simp add: link_def)
  show iff: "\<And>b q. root_of (repr ?s') b q \<longleftrightarrow>
           (if q = g then root_of (repr s) b g \<or> root_of (repr s) b p
            else q \<noteq> p \<and> root_of (repr s) b q)"
    unfolding rl using link_root_of_iff[OF tot gr pr ne] by blast
  have ir: "\<And>a. in_range (repr ?s') a \<longleftrightarrow> in_range (repr s) a"
    by (simp add: rl in_range_def)
  have rep: "\<And>r. representative ?s' r \<longleftrightarrow> representative s r \<and> r \<noteq> p"
    using ne g by (auto simp: representative_root_of iff)
  have cg: "component ?s' g = component s g \<union> component s p"
    by (auto simp: component_def iff)
  have co: "\<And>r. r \<noteq> g \<Longrightarrow> r \<noteq> p \<Longrightarrow> component ?s' r = component s r"
    by (auto simp: component_def iff)
  have sz: "\<And>r. representative s r \<Longrightarrow> component_size s ! nat r = int (card (component s r))"
    and ai: "\<And>r. representative s r \<Longrightarrow>
           additionalInfo s ! nat r = (Min (component s r), Max (component s r))"
    and zero: "\<And>a. in_range (repr s) a \<Longrightarrow> \<not> representative s a \<Longrightarrow> component_size s ! nat a = 0"
    using inv by (simp_all add: uf_inv_def)
  have card_g: "card (component s g \<union> component s p) = card (component s g) + card (component s p)"
    using component_disjoint[OF ne] by (simp add: card_Un_disjoint component_finite)
  have neg: "component s g \<noteq> {}" and nep: "component s p \<noteq> {}"
    using representative_in_component[OF g] representative_in_component[OF p] by auto
  have min_g: "Min (component s g \<union> component s p) = min (Min (component s g)) (Min (component s p))"
    by (simp add: Min_Un component_finite neg nep)
  have max_g: "Max (component s g \<union> component s p) = max (Max (component s g)) (Max (component s p))"
    by (simp add: Max_Un component_finite neg nep)
  show "uf_inv n ?s'"
    unfolding uf_inv_def
  proof (intro conjI allI impI)
    fix a assume "in_range (repr ?s') a"
    then obtain r where "root_of (repr s) a r" using tot ir by blast
    then have "root_of (repr ?s') a (if r = p then g else r)"
      using ne by (auto simp: iff)
    then show "\<exists>r. root_of (repr ?s') a r" by blast
  next
    fix r assume h: "representative ?s' r"
    then have r: "representative s r" "r \<noteq> p" by (simp_all add: rep)
    then have nr: "nat r \<noteq> nat p" "nat r < nat n"
      using pr(1) len by (auto simp: representative_def in_range_def split: if_splits)
    show "component_size ?s' ! nat r = int (card (component ?s' r))"
    proof (cases "r = g")
      case True
      then show ?thesis using nn len sz[OF g] sz[OF p] by (simp add: cl cg card_g)
    next
      case False
      then have "nat r \<noteq> nat g" using r(1) gr(1) by (auto simp: representative_def in_range_def)
      then show ?thesis using nr len sz[OF r(1)] False r(2) by (simp add: cl al co)
    qed
    show "additionalInfo ?s' ! nat r = (Min (component ?s' r), Max (component ?s' r))"
    proof (cases "r = g")
      case True
      then show ?thesis using nn len ai[OF g] ai[OF p] by (simp add: al cg min_g max_g)
    next
      case False
      then have "nat r \<noteq> nat g" using r(1) gr(1) by (auto simp: representative_def in_range_def)
      then show ?thesis using nr len ai[OF r(1)] False r(2) by (simp add: cl al co)
    qed
  next
    fix a assume h: "in_range (repr ?s') a \<and> \<not> representative ?s' a"
    then have a: "in_range (repr s) a" using ir by blast
    show "component_size ?s' ! nat a = 0"
    proof (cases "a = p")
      case True
      then show ?thesis using nn len by (simp add: cl)
    next
      case False
      then have nrep: "\<not> representative s a" using h rep by blast
      then have "a \<noteq> g" using g by auto
      then have "nat a \<noteq> nat g" "nat a \<noteq> nat p"
        using False a gr(1) pr(1) by (auto simp: in_range_def)
      then show ?thesis using zero[OF a nrep] by (simp add: cl)
    qed
  qed (simp_all add: rl cl al len)
qed

section \<open>The operations on a structure that satisfies the invariant\<close>

lemma in_range_valid: "uf_inv n s \<Longrightarrow> in_range (repr s) a \<longleftrightarrow> 0 \<le> a \<and> a < n"
  by (auto simp: uf_inv_def in_range_def)

lemma uf_inv_total: "uf_inv n s \<Longrightarrow> in_range (repr s) a \<Longrightarrow> \<exists>r. root_of (repr s) a r"
  by (simp add: uf_inv_def)

lemma two_finds:
  assumes inv: "uf_inv n s" and x: "in_range (repr s) x" and y: "in_range (repr s) y"
  shows "\<exists>rx ry s1 s2. find_uf s x = Some (Inr (rx, s1)) \<and> find_uf s1 y = Some (Inr (ry, s2))
           \<and> root_of (repr s) x rx \<and> root_of (repr s) y ry \<and> uf_inv n s2
           \<and> (\<forall>b q. root_of (repr s2) b q \<longleftrightarrow> root_of (repr s) b q)
           \<and> component_size s2 = component_size s \<and> additionalInfo s2 = additionalInfo s"
proof -
  obtain rx s1 where f1: "find_uf s x = Some (Inr (rx, s1))" "root_of (repr s) x rx"
      "compressed s x rx s1" "uf_inv n s1"
      "\<forall>b q. root_of (repr s1) b q \<longleftrightarrow> root_of (repr s) b q"
    using find_uf_inv[OF inv x] by blast
  have y1: "in_range (repr s1) y" using y f1(3) by (simp add: compressed_def in_range_def)
  obtain ry s2 where f2: "find_uf s1 y = Some (Inr (ry, s2))" "root_of (repr s1) y ry"
      "compressed s1 y ry s2" "uf_inv n s2"
      "\<forall>b q. root_of (repr s2) b q \<longleftrightarrow> root_of (repr s1) b q"
    using find_uf_inv[OF f1(4) y1] by blast
  have "component_size s2 = component_size s" "additionalInfo s2 = additionalInfo s"
    using f1(3) f2(3) by (simp_all add: compressed_def)
  then show ?thesis using f1 f2 by auto
qed

lemma find_uf_fault_second:
  assumes inv: "uf_inv n s" and x: "in_range (repr s) x" and y: "\<not> in_range (repr s) y"
  shows "\<exists>rx s1. find_uf s x = Some (Inr (rx, s1)) \<and> find_uf s1 y = Some (Inl UndefinedBehaviour)"
proof -
  obtain rx s1 where f1: "find_uf s x = Some (Inr (rx, s1))" "compressed s x rx s1"
    using find_uf_inv[OF inv x] by blast
  have "\<not> in_range (repr s1) y" using y f1(2) by (simp add: compressed_def in_range_def)
  then show ?thesis using f1(1) find_uf_out_of_range by blast
qed

lemma merge_same:
  assumes inv: "uf_inv n s" and x: "root_of (repr s) x r" and y: "root_of (repr s) y r"
  shows "\<exists>s'. merge s x y = Some (Inr s') \<and> uf_inv n s'
           \<and> (\<forall>b q. root_of (repr s') b q \<longleftrightarrow> root_of (repr s) b q)
           \<and> component_size s' = component_size s \<and> additionalInfo s' = additionalInfo s"
proof -
  obtain rx ry s1 s2 where f: "find_uf s x = Some (Inr (rx, s1))"
      "find_uf s1 y = Some (Inr (ry, s2))" "root_of (repr s) x rx" "root_of (repr s) y ry"
      "uf_inv n s2" "\<forall>b q. root_of (repr s2) b q \<longleftrightarrow> root_of (repr s) b q"
      "component_size s2 = component_size s" "additionalInfo s2 = additionalInfo s"
    using two_finds[OF inv root_of_in_range[OF x] root_of_in_range[OF y]] by blast
  have "rx = ry" using f(3,4) x y root_of_det by blast
  then have "merge s x y = Some (Inr s2)" using f(1,2) by (simp add: merge_def)
  then show ?thesis using f by blast
qed

lemma merge_different:
  assumes inv: "uf_inv n s" and x: "root_of (repr s) x rx" and y: "root_of (repr s) y ry"
    and ne: "rx \<noteq> ry"
  shows "\<exists>s2. merge s x y =
                 Some (Inr (if component_size s ! nat ry > component_size s ! nat rx
                            then link s2 ry rx else link s2 rx ry))
           \<and> uf_inv n s2 \<and> (\<forall>b q. root_of (repr s2) b q \<longleftrightarrow> root_of (repr s) b q)
           \<and> component_size s2 = component_size s \<and> additionalInfo s2 = additionalInfo s"
proof -
  obtain rx' ry' s1 s2 where f: "find_uf s x = Some (Inr (rx', s1))"
      "find_uf s1 y = Some (Inr (ry', s2))" "root_of (repr s) x rx'" "root_of (repr s) y ry'"
      "uf_inv n s2" "\<forall>b q. root_of (repr s2) b q \<longleftrightarrow> root_of (repr s) b q"
      "component_size s2 = component_size s" "additionalInfo s2 = additionalInfo s"
    using two_finds[OF inv root_of_in_range[OF x] root_of_in_range[OF y]] by blast
  have e: "rx' = rx" "ry' = ry" using f(3,4) x y root_of_det by blast+
  have "root_of (repr s) rx rx" "root_of (repr s) ry ry"
    using root_of_is_root[OF x] root_of_is_root[OF y] by (auto intro: root_of.root)
  then have "in_range (repr s2) rx" "in_range (repr s2) ry"
    using f(6) root_of_in_range by blast+
  moreover have "length (component_size s2) = length (repr s2)"
    "length (additionalInfo s2) = length (repr s2)"
    using f(5) by (simp_all add: uf_inv_def)
  ultimately have "merge_step s2 rx ry =
      Inr (if component_size s2 ! nat ry > component_size s2 ! nat rx
           then link s2 ry rx else link s2 rx ry)"
    using ne by (intro merge_step_link)
  then have "merge s x y =
      Some (Inr (if component_size s ! nat ry > component_size s ! nat rx
                 then link s2 ry rx else link s2 rx ry))"
    using f(1,2,7) e ne by (simp add: merge_def)
  then show ?thesis using f by blast
qed

lemma same_roots_representative:
  "(\<forall>b q. root_of (repr s') b q \<longleftrightarrow> root_of (repr s) b q) \<Longrightarrow> representative s' r \<longleftrightarrow> representative s r"
  by (simp add: representative_root_of)

lemma same_roots_component:
  "(\<forall>b q. root_of (repr s') b q \<longleftrightarrow> root_of (repr s) b q) \<Longrightarrow> component s' r = component s r"
  by (simp add: component_def)

lemma merge_inv:
  assumes inv: "uf_inv n s" and m: "merge s x y = Some (Inr s')"
  shows "uf_inv n s'"
proof -
  have x: "in_range (repr s) x"
    using m find_uf_out_of_range[of s x]
    by (cases "in_range (repr s) x") (auto simp: merge_def)
  have y: "in_range (repr s) y"
    using m find_uf_fault_second[OF inv x, of y]
    by (cases "in_range (repr s) y") (auto simp: merge_def)
  obtain rx ry where r: "root_of (repr s) x rx" "root_of (repr s) y ry"
    using uf_inv_total[OF inv x] uf_inv_total[OF inv y] by blast
  show ?thesis
  proof (cases "rx = ry")
    case True
    then show ?thesis using merge_same[OF inv r(1), of y] r(2) m by auto
  next
    case False
    obtain s2 where s2: "merge s x y =
                 Some (Inr (if component_size s ! nat ry > component_size s ! nat rx
                            then link s2 ry rx else link s2 rx ry))"
      "uf_inv n s2" "\<forall>b q. root_of (repr s2) b q \<longleftrightarrow> root_of (repr s) b q"
      using merge_different[OF inv r False] by blast
    have "representative s rx" "representative s ry"
      using root_of_is_root[OF r(1)] root_of_is_root[OF r(2)]
      by (simp_all add: representative_def)
    then have "representative s2 rx" "representative s2 ry"
      by (simp_all add: same_roots_representative[OF s2(3)])
    then have "uf_inv n (link s2 ry rx)" "uf_inv n (link s2 rx ry)"
      using link_inv(1)[OF s2(2)] False by auto
    then show ?thesis using s2(1) m by (auto split: if_splits)
  qed
qed

lemma find_inv:
  assumes inv: "uf_inv n s" and f: "find_uf s a = Some (Inr (r, s'))"
  shows "uf_inv n s'"
proof -
  have "in_range (repr s) a" using f find_uf_out_of_range[of s a]
    by (cases "in_range (repr s) a") auto
  then show ?thesis using find_uf_inv[OF inv] f by fastforce
qed

lemma size_inv:
  assumes inv: "uf_inv n s" and f: "size_uf s a = Some (Inr (k, s'))"
  shows "uf_inv n s'"
  using f find_inv[OF inv, of a]
  by (auto simp: size_uf_def split: option.splits sum.splits if_splits)

lemma get_inv:
  assumes inv: "uf_inv n s" and f: "get s u v = Some (Inr (b, s'))"
  shows "uf_inv n s'"
proof -
  from f obtain u' s1 v' where "find_uf s u = Some (Inr (u', s1))"
    "find_uf s1 v = Some (Inr (v', s'))"
    by (auto simp: get_def split: option.splits sum.splits)
  then show ?thesis using find_inv inv by blast
qed

lemma reachable_inv: "reachable n s \<Longrightarrow> uf_inv n s"
proof (induction rule: reachable.induct)
  case r_new
  show ?case by (rule union_find_inv)
next
  case (r_find s a r s')
  then show ?case using find_inv by blast
next
  case (r_size s a k s')
  then show ?case using size_inv by blast
next
  case (r_merge s x y s')
  then show ?case using merge_inv by blast
next
  case (r_get s u v b s')
  then show ?case using get_inv by blast
qed

lemma find_uf_direct:
  assumes "root_of l a r" and "l = repr s" and "l ! nat a = r"
  shows "find_uf s a = Some (Inr (r, s))"
proof (cases "r = a")
  case True
  then show ?thesis using assms root_of_in_range[OF assms(1)]
    by (subst find_uf.simps) simp
next
  case False
  have r: "in_range (repr s) r" "repr s ! nat r = r"
    using root_of_is_root[OF assms(1)] assms(2) by auto
  have fr: "find_uf s r = Some (Inr (r, s))"
    using r by (subst find_uf.simps) simp
  have a: "in_range (repr s) a" using root_of_in_range[OF assms(1)] assms(2) by simp
  have "(repr s)[nat a := r] = repr s" using assms(2,3) by (metis list_update_id)
  then show ?thesis
    using False a assms(2,3) fr
    by (subst find_uf.simps) (simp add: in_range_nth)
qed

lemma reachable_valid: "reachable n s \<Longrightarrow> in_range (repr s) a \<longleftrightarrow> 0 \<le> a \<and> a < n"
  using reachable_inv in_range_valid by blast

section \<open>Counting components and elements\<close>

lemma representatives_subset: "{r. representative s r} \<subseteq> {0..<int (length (repr s))}"
  by (auto simp: representative_def in_range_def)

lemma representatives_finite: "finite {r. representative s r}"
  using representatives_subset by (rule finite_subset) simp

lemma components_cover:
  assumes "uf_inv n s"
  shows "(\<Union>r\<in>{r. representative s r}. component s r) = {0..<n}"
proof (intro set_eqI iffI)
  fix a assume "a \<in> (\<Union>r\<in>{r. representative s r}. component s r)"
  then have "in_range (repr s) a" by (auto simp: component_def dest: root_of_in_range)
  then show "a \<in> {0..<n}" using in_range_valid[OF assms] by simp
next
  fix a assume "a \<in> {0..<n}"
  then have "in_range (repr s) a" using in_range_valid[OF assms] by simp
  then obtain r where r: "root_of (repr s) a r" using uf_inv_total[OF assms] by blast
  then have "representative s r" using root_of_is_root[OF r] by (simp add: representative_def)
  then show "a \<in> (\<Union>r\<in>{r. representative s r}. component s r)"
    using r by (auto simp: component_def)
qed

lemma sizes_sum:
  assumes inv: "uf_inv n s"
  shows "(\<Sum>r | representative s r. component_size s ! nat r) = int (nat n)"
proof -
  let ?R = "{r. representative s r}"
  have "(\<Sum>r\<in>?R. component_size s ! nat r) = (\<Sum>r\<in>?R. int (card (component s r)))"
    using inv by (intro sum.cong) (auto simp: uf_inv_def)
  also have "\<dots> = int (\<Sum>r\<in>?R. card (component s r))" by simp
  also have "(\<Sum>r\<in>?R. card (component s r)) = card (\<Union>r\<in>?R. component s r)"
    using representatives_finite component_finite component_disjoint
    by (intro card_UN_disjoint[symmetric]) auto
  also have "\<dots> = nat n" by (simp add: components_cover[OF inv])
  finally show ?thesis .
qed

lemma size_uf_value:
  assumes inv: "uf_inv n s" and r: "root_of (repr s) a r"
  shows "\<exists>s'. size_uf s a = Some (Inr (component_size s ! nat r, s'))"
proof -
  obtain r' s' where f: "find_uf s a = Some (Inr (r', s'))" "root_of (repr s) a r'"
      "compressed s a r' s'" "uf_inv n s'"
    using find_uf_inv[OF inv root_of_in_range[OF r]] by blast
  have e: "r' = r" using f(2) r root_of_det by blast
  have "in_range (repr s) r" using root_of_is_root[OF r] by simp
  then have "in_range (component_size s') r"
    using f(3) inv by (simp add: compressed_def uf_inv_def in_range_def)
  then show ?thesis using f(1,3) e by (simp add: size_uf_def compressed_def)
qed

lemma get_value:
  assumes inv: "uf_inv n s" and u: "root_of (repr s) u ru" and v: "root_of (repr s) v rv"
  shows "\<exists>s'. get s u v = Some (Inr (ru = rv, s'))"
proof -
  obtain ru' rv' s1 s2 where f: "find_uf s u = Some (Inr (ru', s1))"
      "find_uf s1 v = Some (Inr (rv', s2))" "root_of (repr s) u ru'" "root_of (repr s) v rv'"
    using two_finds[OF inv root_of_in_range[OF u] root_of_in_range[OF v]] by blast
  have "ru' = ru" "rv' = rv" using f(3,4) u v root_of_det by blast+
  then show ?thesis using f(1,2) by (simp add: get_def)
qed

lemma count_loop_filter: "count_loop xs c = c + int (length (filter (\<lambda>el. el > 0) xs))"
  by (induction xs arbitrary: c) auto

lemma count_islands_filter:
  "count_islands s = int (length (filter (\<lambda>el. el > 0) (component_size s)))"
  by (simp add: count_islands_def count_loop_filter)

lemma count_islands_representatives:
  assumes inv: "uf_inv n s"
  shows "count_islands s = int (card {r. representative s r})"
proof -
  let ?R = "{r. representative s r}"
  have len: "length (component_size s) = length (repr s)" using inv by (simp add: uf_inv_def)
  have pos: "\<And>r. representative s r \<Longrightarrow> component_size s ! nat r > 0"
  proof -
    fix r assume r: "representative s r"
    have "card (component s r) > 0"
      using representative_in_component[OF r] component_finite by (auto simp: card_gt_0_iff)
    then show "component_size s ! nat r > 0" using inv r by (simp add: uf_inv_def)
  qed
  have zero: "\<And>a. in_range (repr s) a \<Longrightarrow> \<not> representative s a \<Longrightarrow> component_size s ! nat a = 0"
    using inv by (simp add: uf_inv_def)
  have "{i. i < length (component_size s) \<and> component_size s ! i > 0} = nat ` ?R"
  proof (intro set_eqI iffI)
    fix i assume "i \<in> {i. i < length (component_size s) \<and> component_size s ! i > 0}"
    then have i: "in_range (repr s) (int i)" "component_size s ! nat (int i) > 0"
      using len by (simp_all add: in_range_def)
    then have "representative s (int i)" using zero by fastforce
    then show "i \<in> nat ` ?R" by force
  next
    fix i assume "i \<in> nat ` ?R"
    then obtain r where r: "representative s r" "i = nat r" by auto
    then have "i < length (component_size s)"
      using len in_range_nth[of "repr s" r] by (simp add: representative_def)
    then show "i \<in> {i. i < length (component_size s) \<and> component_size s ! i > 0}"
      using pos[OF r(1)] r(2) by simp
  qed
  moreover have "inj_on nat ?R"
  proof (rule inj_onI)
    fix x y assume "x \<in> ?R" "y \<in> ?R" and e: "nat x = nat y"
    then have "0 \<le> x" "0 \<le> y" by (simp_all add: representative_def in_range_def)
    then show "x = y" using e by simp
  qed
  ultimately have "card {i. i < length (component_size s) \<and> component_size s ! i > 0} = card ?R"
    by (simp add: card_image)
  then show ?thesis by (simp add: count_islands_filter length_filter_conv_card)
qed

lemma component_inj: "inj_on (component s) {r. representative s r}"
proof (rule inj_onI)
  fix r r' assume r: "r \<in> {r. representative s r}" and r': "r' \<in> {r. representative s r}"
    and e: "component s r = component s r'"
  have "r \<in> component s r'" using representative_in_component[of s r] r e by simp
  then have rr: "root_of (repr s) r r'" by (simp add: component_def)
  have "in_range (repr s) r" "repr s ! nat r = r"
    using r by (simp_all add: representative_def)
  then have "root_of (repr s) r r' \<longleftrightarrow> r' = r" by (rule root_of_root_iff)
  then show "r = r'" using rr by simp
qed

lemma count_islands_components:
  assumes "uf_inv n s"
  shows "count_islands s = int (card (component s ` {r. representative s r}))"
  using count_islands_representatives[OF assms] by (simp add: card_image component_inj)

lemma link_representative:
  assumes "uf_inv n s" "representative s g" "representative s p" "g \<noteq> p"
  shows "representative (link s g p) r \<longleftrightarrow> representative s r \<and> r \<noteq> p"
  using assms(2,4) by (auto simp: representative_root_of link_inv(2)[OF assms])

lemma count_islands_link:
  assumes "uf_inv n s" "representative s g" "representative s p" "g \<noteq> p"
  shows "count_islands (link s g p) = count_islands s - 1"
proof -
  have "{r. representative (link s g p) r} = {r. representative s r} - {p}"
    by (auto simp: link_representative[OF assms])
  then have "card {r. representative (link s g p) r} = card {r. representative s r} - 1"
    using assms(3) by (simp add: representatives_finite)
  moreover have "card {r. representative s r} > 0"
    using assms(3) representatives_finite[of s] by (auto simp: card_gt_0_iff)
  ultimately show ?thesis
    using count_islands_representatives[OF assms(1)]
      count_islands_representatives[OF link_inv(1)[OF assms]] by simp
qed

section \<open>The result of a merge\<close>

lemma merge_link_result:
  assumes inv: "uf_inv n s" and x: "root_of (repr s) x rx" and y: "root_of (repr s) y ry"
    and ne: "rx \<noteq> ry"
    and g: "g = (if component_size s ! nat ry > component_size s ! nat rx then ry else rx)"
    and p: "p = (if component_size s ! nat ry > component_size s ! nat rx then rx else ry)"
  shows "\<exists>s'. merge s x y = Some (Inr s')
           \<and> repr s' ! nat p = g \<and> repr s' ! nat g = g
           \<and> component_size s' ! nat g = component_size s ! nat rx + component_size s ! nat ry
           \<and> component_size s' ! nat p = 0
           \<and> count_islands s' = count_islands s - 1"
proof -
  obtain s2 where s2: "merge s x y =
                 Some (Inr (if component_size s ! nat ry > component_size s ! nat rx
                            then link s2 ry rx else link s2 rx ry))"
      "uf_inv n s2" "\<forall>b q. root_of (repr s2) b q \<longleftrightarrow> root_of (repr s) b q"
      "component_size s2 = component_size s"
    using merge_different[OF inv x y ne] by blast
  have m: "merge s x y = Some (Inr (link s2 g p))" using s2(1) g p by simp
  have "representative s rx" "representative s ry"
    using root_of_is_root[OF x] root_of_is_root[OF y] by (simp_all add: representative_def)
  then have "representative s2 rx" "representative s2 ry"
    by (simp_all add: same_roots_representative[OF s2(3)])
  then have rg: "representative s2 g" and rp: "representative s2 p" and gp: "g \<noteq> p"
    using g p ne by auto
  have len: "length (repr s2) = nat n" "length (component_size s2) = nat n"
    using s2(2) by (simp_all add: uf_inv_def)
  have nn: "nat g \<noteq> nat p" "nat g < nat n" "nat p < nat n"
    using rg rp gp len by (auto simp: representative_def in_range_def split: if_splits)
  have "repr (link s2 g p) ! nat p = g" using nn len by (simp add: link_def)
  moreover have "repr (link s2 g p) ! nat g = g"
    using nn rg by (simp add: link_def representative_def)
  moreover have "component_size (link s2 g p) ! nat g
      = component_size s ! nat rx + component_size s ! nat ry"
    using nn len g p s2(4) by (simp add: link_def)
  moreover have "component_size (link s2 g p) ! nat p = 0" using nn len by (simp add: link_def)
  moreover have "count_islands (link s2 g p) = count_islands s - 1"
    using count_islands_link[OF s2(2) rg rp gp] s2(4) by (simp add: count_islands_def)
  ultimately show ?thesis using m by blast
qed

lemma get_True_same_root:
  assumes inv: "uf_inv n s" and g: "get s x y = Some (Inr (True, t))"
  shows "\<exists>r. root_of (repr s) x r \<and> root_of (repr s) y r"
proof -
  have x: "in_range (repr s) x"
    using g find_uf_out_of_range[of s x]
    by (cases "in_range (repr s) x") (auto simp: get_def)
  have y: "in_range (repr s) y"
    using g find_uf_fault_second[OF inv x, of y]
    by (cases "in_range (repr s) y") (auto simp: get_def)
  obtain rx ry where r: "root_of (repr s) x rx" "root_of (repr s) y ry"
    using uf_inv_total[OF inv x] uf_inv_total[OF inv y] by blast
  then have "rx = ry" using get_value[OF inv r] g by auto
  then show ?thesis using r by blast
qed

section \<open>Identifiers outside the vectors\<close>

lemma size_uf_out_of_range:
  "\<not> in_range (repr s) a \<Longrightarrow> size_uf s a = Some (Inl UndefinedBehaviour)"
  by (simp add: size_uf_def find_uf_out_of_range)

lemma merge_out_of_range:
  assumes inv: "uf_inv n s" and a: "\<not> in_range (repr s) a"
  shows "merge s a b = Some (Inl UndefinedBehaviour)" "merge s b a = Some (Inl UndefinedBehaviour)"
proof -
  show "merge s a b = Some (Inl UndefinedBehaviour)"
    using a by (simp add: merge_def find_uf_out_of_range)
  show "merge s b a = Some (Inl UndefinedBehaviour)"
  proof (cases "in_range (repr s) b")
    case True
    then show ?thesis using find_uf_fault_second[OF inv True a] by (auto simp: merge_def)
  next
    case False
    then show ?thesis by (simp add: merge_def find_uf_out_of_range)
  qed
qed

lemma get_out_of_range:
  assumes inv: "uf_inv n s" and a: "\<not> in_range (repr s) a"
  shows "get s a b = Some (Inl UndefinedBehaviour)" "get s b a = Some (Inl UndefinedBehaviour)"
proof -
  show "get s a b = Some (Inl UndefinedBehaviour)"
    using a by (simp add: get_def find_uf_out_of_range)
  show "get s b a = Some (Inl UndefinedBehaviour)"
  proof (cases "in_range (repr s) b")
    case True
    then show ?thesis using find_uf_fault_second[OF inv True a] by (auto simp: get_def)
  next
    case False
    then show ?thesis by (simp add: get_def find_uf_out_of_range)
  qed
qed

lemma merge_returns:
  assumes inv: "uf_inv n s" and x: "in_range (repr s) x" and y: "in_range (repr s) y"
  shows "\<exists>s'. merge s x y = Some (Inr s')"
proof -
  obtain rx ry where r: "root_of (repr s) x rx" "root_of (repr s) y ry"
    using uf_inv_total[OF inv x] uf_inv_total[OF inv y] by blast
  show ?thesis
  proof (cases "rx = ry")
    case True
    then show ?thesis using merge_same[OF inv r(1), of y] r(2) by blast
  next
    case False
    then show ?thesis using merge_different[OF inv r] by blast
  qed
qed

lemma count_islands_new: "count_islands (union_find n) = int (nat n)"
  by (simp add: count_islands_filter union_find_closed)

section \<open>No overflow\<close>

lemma reachable_size_bounds:
  assumes "reachable n s" and "c \<in> set (component_size s)"
  shows "0 \<le> c \<and> c \<le> int (nat n)"
proof -
  have inv: "uf_inv n s" using assms(1) by (rule reachable_inv)
  obtain i where i: "i < length (component_size s)" "c = component_size s ! i"
    using assms(2) by (auto simp: in_set_conv_nth)
  have len: "length (component_size s) = nat n" "length (repr s) = nat n"
    using inv by (simp_all add: uf_inv_def)
  have r: "in_range (repr s) (int i)" using i(1) len by (auto simp: in_range_def)
  show ?thesis
  proof (cases "representative s (int i)")
    case True
    have "component s (int i) \<subseteq> {0..<n}"
      using components_cover[OF inv] True by blast
    then have "card (component s (int i)) \<le> card {0..<n}" by (intro card_mono) auto
    moreover have "component_size s ! nat (int i) = int (card (component s (int i)))"
      using inv True unfolding uf_inv_def by blast
    then have "c = int (card (component s (int i)))" using i(2) by simp
    ultimately show ?thesis by auto
  next
    case False
    then have "component_size s ! nat (int i) = 0"
      using inv r unfolding uf_inv_def by blast
    then have "c = 0" using i(2) by simp
    then show ?thesis by simp
  qed
qed

section \<open>The only fault is undefined behaviour\<close>

lemma find_uf_fault:
  assumes "find_uf s a = Some y"
  shows "\<forall>e. y = Inl e \<longrightarrow> e = UndefinedBehaviour"
  using assms
proof (rule find_uf.raw_induct[where P = "\<lambda>s a y. \<forall>e. y = Inl e \<longrightarrow> e = UndefinedBehaviour", rotated])
  fix f s a y
  assume ih: "\<And>s a y. f s a = Some y \<Longrightarrow> \<forall>e. y = Inl e \<longrightarrow> e = UndefinedBehaviour"
    and b: "(if \<not> in_range (repr s) a then Some (Inl UndefinedBehaviour)
      else if repr s ! nat a = a then Some (Inr (a, s))
      else
        Option.bind (f s (repr s ! nat a))
          (\<lambda>res. case res of
             Inl e \<Rightarrow> Some (Inl e)
           | Inr (r, s') \<Rightarrow>
               if \<not> in_range (repr s') a then Some (Inl UndefinedBehaviour)
               else
                 (let s'' = s'\<lparr>repr := (repr s')[nat a := r]\<rparr>
                  in Some (Inr (repr s'' ! nat a, s''))))) = Some y"
  show "\<forall>e. y = Inl e \<longrightarrow> e = UndefinedBehaviour"
    using b ih
    by (fastforce simp: Let_def split: if_splits sum.splits prod.splits Option.bind_splits)
qed

lemma find_uf_error: "find_uf s a = Some (Inl e) \<Longrightarrow> e = UndefinedBehaviour"
  using find_uf_fault by blast

lemma merge_step_error: "merge_step s g p = Inl e \<Longrightarrow> e = UndefinedBehaviour"
  by (auto simp: merge_step_def Let_def split: if_splits prod.splits)

lemma size_uf_error: "size_uf s a = Some (Inl e) \<Longrightarrow> e = UndefinedBehaviour"
  using find_uf_error
  by (auto simp: size_uf_def split: option.splits sum.splits if_splits)

lemma merge_error: "merge s x y = Some (Inl e) \<Longrightarrow> e = UndefinedBehaviour"
  using find_uf_error merge_step_error
  by (fastforce simp: merge_def split: option.splits sum.splits if_splits)

lemma get_error: "get s u v = Some (Inl e) \<Longrightarrow> e = UndefinedBehaviour"
  using find_uf_error
  by (fastforce simp: get_def split: option.splits sum.splits if_splits)

section \<open>The scenario\<close>

lemma union_find_5:
  "union_find 5 = \<lparr>component_size = [1, 1, 1, 1, 1], repr = [0, 1, 2, 3, 4],
     additionalInfo = [(0, 0), (1, 1), (2, 2), (3, 3), (4, 4)]\<rparr>"
  by (simp add: union_find_closed upto.simps numeral_eq_Suc)

lemma scenario_steps:
  "merge (union_find 5) 0 1 = Some (Inr scenario1)"
  "merge scenario1 2 3 = Some (Inr scenario2)"
  "merge scenario2 1 2 = Some (Inr scenario3)"
  by (simp_all add: union_find_5 scenario1_def scenario2_def scenario3_def
        merge_def merge_step_def find_uf.simps in_range_def Let_def)

lemma scenario_reachable: "reachable 5 scenario1" "reachable 5 scenario2" "reachable 5 scenario3"
proof -
  show 1: "reachable 5 scenario1"
    using reachable.r_new scenario_steps(1) by (rule reachable.r_merge)
  then show 2: "reachable 5 scenario2"
    using scenario_steps(2) by (rule reachable.r_merge)
  then show "reachable 5 scenario3"
    using scenario_steps(3) by (rule reachable.r_merge)
qed

lemma scenario3_find_3:
  "find_uf scenario3 3 = Some (Inr (0, scenario3\<lparr>repr := [0, 0, 0, 0, 4]\<rparr>))"
  by (simp add: scenario3_def find_uf.simps in_range_def Let_def)

lemma scenario3_visited: "visited (repr scenario3) 3 2"
  by (subst visited_unfold, simp add: scenario3_def in_range_def)+

lemma scenario3_representative: "representative scenario3 r \<longleftrightarrow> r = 0 \<or> r = 4"
proof -
  have "in_range (repr scenario3) r \<longleftrightarrow> r = 0 \<or> r = 1 \<or> r = 2 \<or> r = 3 \<or> r = 4"
    by (auto simp: in_range_def scenario3_def)
  then show ?thesis by (auto simp: representative_def scenario3_def)
qed

lemma scenario1_roots: "root_of (repr scenario1) 1 0" "root_of (repr scenario1) 2 2"
  by (rule root_of.step root_of.root, simp_all add: scenario1_def in_range_def)+

lemma scenario2_roots: "root_of (repr scenario2) 1 0" "root_of (repr scenario2) 2 2"
  by (rule root_of.step root_of.root, simp_all add: scenario2_def in_range_def)+

lemma scenario3_roots: "root_of (repr scenario3) 1 0" "root_of (repr scenario3) 3 0"
  by (rule root_of.step root_of.root, simp_all add: scenario3_def in_range_def)+

lemma scenario3_get_1_3:
  "get scenario3 1 3 = Some (Inr (True, scenario3\<lparr>repr := [0, 0, 0, 0, 4]\<rparr>))"
  by (simp add: scenario3_def get_def find_uf.simps in_range_def Let_def)

lemma union_find_0:
  "union_find 0 = \<lparr>component_size = [], repr = [], additionalInfo = []\<rparr>"
  by (simp add: union_find_closed)

section \<open>The claims\<close>

text \<open>
  Claim C1. On a structure built by the constructor and the operations, \<^verbatim>\<open>find(a)\<close>
  for a valid identifier \<open>a\<close> returns the representative \<open>r\<close> of \<open>a\<close>: the one fixed
  point of \<^verbatim>\<open>repr\<close> that the walk from \<open>a\<close> reaches. Afterwards every node visited
  on that walk points directly at \<open>r\<close>, every other entry of \<^verbatim>\<open>repr\<close>, the sizes and
  the additional information are as before, and a further \<^verbatim>\<open>find(a)\<close> returns \<open>r\<close>
  again and leaves the structure as it is, so that any number of calls in a row
  return \<open>r\<close>.
\<close>

theorem find_representative:
  assumes "reachable n s" and "0 \<le> a" and "a < n"
  shows "\<exists>r s'. find_uf s a = Some (Inr (r, s'))
           \<and> root_of (repr s) a r \<and> (\<forall>r'. root_of (repr s) a r' \<longrightarrow> r' = r)
           \<and> repr s ! nat r = r
           \<and> (\<forall>b. visited (repr s) a b \<longrightarrow> repr s' ! nat b = r)
           \<and> (\<forall>b. 0 \<le> b \<and> b < n \<and> \<not> visited (repr s) a b \<longrightarrow> repr s' ! nat b = repr s ! nat b)
           \<and> component_size s' = component_size s \<and> additionalInfo s' = additionalInfo s
           \<and> find_uf s' a = Some (Inr (r, s'))"
proof -
  have inv: "uf_inv n s" using assms(1) by (rule reachable_inv)
  have a: "in_range (repr s) a" using assms by (simp add: reachable_valid)
  obtain r s' where f: "find_uf s a = Some (Inr (r, s'))" "root_of (repr s) a r"
      "compressed s a r s'" "\<forall>b q. root_of (repr s') b q \<longleftrightarrow> root_of (repr s) b q"
    using find_uf_inv[OF inv a] by blast
  have u: "\<forall>r'. root_of (repr s) a r' \<longrightarrow> r' = r" using f(2) root_of_det by blast
  have v: "\<forall>b. visited (repr s) a b \<longrightarrow> repr s' ! nat b = r"
    using f(3) visited_in_range by (auto simp: compressed_def)
  have w: "\<forall>b. 0 \<le> b \<and> b < n \<and> \<not> visited (repr s) a b \<longrightarrow> repr s' ! nat b = repr s ! nat b"
    using f(3) reachable_valid[OF assms(1)] by (auto simp: compressed_def)
  have "root_of (repr s') a r" using f(2,4) by blast
  moreover have "repr s' ! nat a = r" using v a by (simp add: visited.here)
  ultimately have st: "find_uf s' a = Some (Inr (r, s'))" by (intro find_uf_direct) auto
  have "repr s ! nat r = r" using root_of_is_root[OF f(2)] by simp
  moreover have "component_size s' = component_size s" "additionalInfo s' = additionalInfo s"
    using f(3) by (simp_all add: compressed_def)
  ultimately show ?thesis using f(1,2) u v w st by blast
qed

text \<open>
  In the scenario, \<^verbatim>\<open>find(3)\<close> walks 3, 2, 0, returns 0 and re-points 2 (and 3) to 0.
\<close>

theorem find_representative_witness:
  "reachable 5 scenario3 \<and> visited (repr scenario3) 3 2
   \<and> (\<exists>s'. find_uf scenario3 3 = Some (Inr (0, s')) \<and> root_of (repr scenario3) 3 0
         \<and> repr s' ! nat 2 = 0 \<and> find_uf s' 3 = Some (Inr (0, s')))"
  using find_representative[OF scenario_reachable(3), of 3] scenario3_find_3
    scenario_reachable(3) scenario3_visited
  by auto

text \<open>
  Claim C2. On every structure built by the constructor and the operations, the stored
  size at a representative \<open>r\<close> is the number of elements whose walk along \<^verbatim>\<open>repr\<close>
  ends at \<open>r\<close>, and \<^verbatim>\<open>size(r)\<close> returns it; the stored size at every other valid
  index is 0; and for an element count \<open>n \<ge> 0\<close> the sizes of the representatives add
  up to \<open>n\<close>.
\<close>

theorem size_conservation:
  assumes "reachable n s"
  shows "(\<forall>r. representative s r \<longrightarrow>
            component_size s ! nat r = int (card (component s r))
            \<and> (\<exists>s'. size_uf s r = Some (Inr (component_size s ! nat r, s'))))
       \<and> (\<forall>a. 0 \<le> a \<and> a < n \<and> \<not> representative s a \<longrightarrow> component_size s ! nat a = 0)
       \<and> (0 \<le> n \<longrightarrow> (\<Sum>r | representative s r. component_size s ! nat r) = n)"
proof -
  have inv: "uf_inv n s" using assms by (rule reachable_inv)
  have "\<forall>r. representative s r \<longrightarrow> component_size s ! nat r = int (card (component s r))"
    using inv by (simp add: uf_inv_def)
  moreover have "\<forall>r. representative s r \<longrightarrow>
      (\<exists>s'. size_uf s r = Some (Inr (component_size s ! nat r, s')))"
    using size_uf_value[OF inv] by (simp add: representative_root_of)
  moreover have "\<forall>a. 0 \<le> a \<and> a < n \<and> \<not> representative s a \<longrightarrow> component_size s ! nat a = 0"
    using inv in_range_valid[OF inv] by (simp add: uf_inv_def)
  moreover have "0 \<le> n \<longrightarrow> (\<Sum>r | representative s r. component_size s ! nat r) = n"
    using sizes_sum[OF inv] by simp
  ultimately show ?thesis by blast
qed

text \<open>In the scenario the representatives are 0 and 4, with sizes 4 and 1, and five elements in all.\<close>

theorem size_conservation_witness:
  "reachable 5 scenario3 \<and> representative scenario3 0 \<and> \<not> representative scenario3 2
   \<and> card (component scenario3 0) = 4
   \<and> (\<exists>s'. size_uf scenario3 0 = Some (Inr (4, s')))
   \<and> component_size scenario3 ! nat 2 = 0
   \<and> (\<Sum>r | representative scenario3 r. component_size scenario3 ! nat r) = 5"
proof -
  note t = size_conservation[OF scenario_reachable(3)]
  have r0: "representative scenario3 0" and r2: "\<not> representative scenario3 2"
    by (simp_all add: scenario3_representative)
  have v: "component_size scenario3 ! nat 0 = 4" by (simp add: scenario3_def)
  have "card (component scenario3 0) = 4" using t r0 v by auto
  moreover have "\<exists>s'. size_uf scenario3 0 = Some (Inr (4, s'))" using t r0 v by auto
  moreover have "component_size scenario3 ! nat 2 = 0"
  proof -
    from t have "0 \<le> (2::int) \<and> (2::int) < 5 \<and> \<not> representative scenario3 2
        \<longrightarrow> component_size scenario3 ! nat 2 = 0" by blast
    then show ?thesis using r2 by simp
  qed
  moreover have "(\<Sum>r | representative scenario3 r. component_size scenario3 ! nat r) = 5"
  proof -
    from t have "(0::int) \<le> 5 \<longrightarrow>
        (\<Sum>r | representative scenario3 r. component_size scenario3 ! nat r) = 5" by blast
    then show ?thesis by simp
  qed
  ultimately show ?thesis using r0 r2 scenario_reachable(3) by blast
qed

text \<open>
  Claim C3. On every structure built by the constructor and the operations, the
  additional information stored at a representative \<open>r\<close> is the pair of the least and
  the greatest element whose walk along \<^verbatim>\<open>repr\<close> ends at \<open>r\<close>; the constructor stores
  \<open>(i, i)\<close> at every index \<open>i\<close>.
\<close>

theorem aggregate_correct:
  assumes "reachable n s"
  shows "(\<forall>r. representative s r \<longrightarrow>
            additionalInfo s ! nat r = (Min (component s r), Max (component s r)))
       \<and> (\<forall>i. 0 \<le> i \<and> i < n \<longrightarrow> additionalInfo (union_find n) ! nat i = (i, i))"
proof -
  have inv: "uf_inv n s" using assms by (rule reachable_inv)
  have "\<forall>i. 0 \<le> i \<and> i < n \<longrightarrow> additionalInfo (union_find n) ! nat i = (i, i)"
    by (simp add: union_find_closed nth_upto0)
  then show ?thesis using inv by (simp add: uf_inv_def)
qed

text \<open>In the scenario the component of 0 spans the elements from 0 to 3.\<close>

theorem aggregate_correct_witness:
  "reachable 5 scenario3 \<and> representative scenario3 0
   \<and> (Min (component scenario3 0), Max (component scenario3 0)) = (0, 3)
   \<and> additionalInfo (union_find 5) ! nat 2 = (2, 2)"
proof -
  note t = aggregate_correct[OF scenario_reachable(3)]
  have r0: "representative scenario3 0" by (simp add: scenario3_representative)
  have v: "additionalInfo scenario3 ! nat 0 = (0, 3)" by (simp add: scenario3_def)
  have "(Min (component scenario3 0), Max (component scenario3 0)) = (0, 3)"
    using t r0 v by auto
  moreover have "additionalInfo (union_find 5) ! nat 2 = (2, 2)"
  proof -
    from t have "0 \<le> (2::int) \<and> (2::int) < 5
        \<longrightarrow> additionalInfo (union_find 5) ! nat 2 = (2, 2)" by blast
    then show ?thesis by simp
  qed
  ultimately show ?thesis using r0 scenario_reachable(3) by blast
qed

text \<open>
  Claim C4. \<^verbatim>\<open>count_islands()\<close> (the specification's \<open>count_components\<close>) returns the
  number of indices whose stored size is positive, and on a structure built by the
  constructor and the operations that is the number of representatives and the number
  of different components. For valid identifiers \<^verbatim>\<open>merge(x, y)\<close> returns, and the count
  after it is not greater than before: it is the same when the two arguments were in
  the same component and lower by exactly 1 otherwise.
\<close>

theorem count_components:
  assumes "reachable n s"
  shows "count_islands s = int (length (filter (\<lambda>el. el > 0) (component_size s)))
       \<and> count_islands s = int (card {r. representative s r})
       \<and> count_islands s = int (card (component s ` {r. representative s r}))
       \<and> (\<forall>x y. 0 \<le> x \<and> x < n \<and> 0 \<le> y \<and> y < n \<longrightarrow>
             (\<exists>s'. merge s x y = Some (Inr s')
                \<and> count_islands s' \<le> count_islands s
                \<and> count_islands s' =
                    (if \<exists>r. root_of (repr s) x r \<and> root_of (repr s) y r
                     then count_islands s else count_islands s - 1)))"
proof -
  have inv: "uf_inv n s" using assms by (rule reachable_inv)
  have "\<And>x y. 0 \<le> x \<and> x < n \<and> 0 \<le> y \<and> y < n \<Longrightarrow>
          \<exists>s'. merge s x y = Some (Inr s')
             \<and> count_islands s' \<le> count_islands s
             \<and> count_islands s' =
                 (if \<exists>r. root_of (repr s) x r \<and> root_of (repr s) y r
                  then count_islands s else count_islands s - 1)"
  proof -
    fix x y assume v: "0 \<le> x \<and> x < n \<and> 0 \<le> y \<and> y < n"
    have x: "in_range (repr s) x" and y: "in_range (repr s) y"
      using v by (simp_all add: in_range_valid[OF inv])
    obtain rx ry where r: "root_of (repr s) x rx" "root_of (repr s) y ry"
      using uf_inv_total[OF inv x] uf_inv_total[OF inv y] by blast
    show "\<exists>s'. merge s x y = Some (Inr s')
             \<and> count_islands s' \<le> count_islands s
             \<and> count_islands s' =
                 (if \<exists>r. root_of (repr s) x r \<and> root_of (repr s) y r
                  then count_islands s else count_islands s - 1)"
    proof (cases "rx = ry")
      case True
      then have "\<exists>r. root_of (repr s) x r \<and> root_of (repr s) y r" using r by blast
      moreover obtain s' where "merge s x y = Some (Inr s')"
          "component_size s' = component_size s"
        using merge_same[OF inv r(1), of y] r(2) True by blast
      ultimately show ?thesis by (auto simp: count_islands_def)
    next
      case False
      then have "\<not> (\<exists>r. root_of (repr s) x r \<and> root_of (repr s) y r)"
        using r root_of_det by blast
      moreover obtain s' where "merge s x y = Some (Inr s')"
          "count_islands s' = count_islands s - 1"
        using merge_link_result[OF inv r False refl refl] by blast
      ultimately show ?thesis by auto
    qed
  qed
  then show ?thesis
    using count_islands_filter count_islands_representatives[OF inv]
      count_islands_components[OF inv] by blast
qed

text \<open>
  In the scenario, the third merge joins the components of 1 and 2 and takes the count
  from 3 to 2; after it, \<^verbatim>\<open>merge(1, 3)\<close> meets one component twice and the count stays 2.
\<close>

theorem count_components_witness:
  "reachable 5 scenario2 \<and> card {r. representative scenario2 r} = 3
   \<and> \<not> (\<exists>r. root_of (repr scenario2) 1 r \<and> root_of (repr scenario2) 2 r)
   \<and> (\<exists>s'. merge scenario2 1 2 = Some (Inr s') \<and> count_islands s' = 2)
   \<and> reachable 5 scenario3
   \<and> (\<exists>r. root_of (repr scenario3) 1 r \<and> root_of (repr scenario3) 3 r)
   \<and> (\<exists>s'. merge scenario3 1 3 = Some (Inr s') \<and> count_islands s' = 2)"
proof -
  note t2 = count_components[OF scenario_reachable(2)]
  note t3 = count_components[OF scenario_reachable(3)]
  have c2: "count_islands scenario2 = 3" by (simp add: count_islands_def scenario2_def)
  have c3: "count_islands scenario3 = 2" by (simp add: count_islands_def scenario3_def)
  have d: "\<not> (\<exists>r. root_of (repr scenario2) 1 r \<and> root_of (repr scenario2) 2 r)"
    using scenario2_roots root_of_det by (metis zero_neq_numeral)
  have e: "\<exists>r. root_of (repr scenario3) 1 r \<and> root_of (repr scenario3) 3 r"
    using scenario3_roots by blast
  have "card {r. representative scenario2 r} = 3" using t2 c2 by simp
  moreover have "\<exists>s'. merge scenario2 1 2 = Some (Inr s') \<and> count_islands s' = 2"
  proof -
    from t2 have "0 \<le> (1::int) \<and> (1::int) < 5 \<and> 0 \<le> (2::int) \<and> (2::int) < 5 \<longrightarrow>
        (\<exists>s'. merge scenario2 1 2 = Some (Inr s')
           \<and> count_islands s' \<le> count_islands scenario2
           \<and> count_islands s' =
               (if \<exists>r. root_of (repr scenario2) 1 r \<and> root_of (repr scenario2) 2 r
                then count_islands scenario2 else count_islands scenario2 - 1))" by blast
    then show ?thesis using d c2 by auto
  qed
  moreover have "\<exists>s'. merge scenario3 1 3 = Some (Inr s') \<and> count_islands s' = 2"
  proof -
    from t3 have "0 \<le> (1::int) \<and> (1::int) < 5 \<and> 0 \<le> (3::int) \<and> (3::int) < 5 \<longrightarrow>
        (\<exists>s'. merge scenario3 1 3 = Some (Inr s')
           \<and> count_islands s' \<le> count_islands scenario3
           \<and> count_islands s' =
               (if \<exists>r. root_of (repr scenario3) 1 r \<and> root_of (repr scenario3) 3 r
                then count_islands scenario3 else count_islands scenario3 - 1))" by blast
    then show ?thesis using e c3 by auto
  qed
  ultimately show ?thesis using d e scenario_reachable(2,3) by blast
qed

text \<open>
  Claim C5. For valid identifiers \<open>x\<close> and \<open>y\<close> whose representatives \<open>rx\<close> and \<open>ry\<close>
  differ, \<^verbatim>\<open>merge(x, y)\<close> re-points one of the two representatives to the other, which
  stays a representative; the stored size of the one re-pointed is not greater than
  that of the survivor, so the representative of a strictly smaller component is the
  one re-pointed. Afterwards the survivor's stored size is the sum of the two sizes
  and the stored size of the one re-pointed is 0.
\<close>

theorem merge_by_size:
  assumes "reachable n s" and "0 \<le> x" "x < n" and "0 \<le> y" "y < n"
    and "root_of (repr s) x rx" and "root_of (repr s) y ry" and "rx \<noteq> ry"
  shows "\<exists>s' g p. merge s x y = Some (Inr s')
           \<and> ((g, p) = (rx, ry) \<or> (g, p) = (ry, rx))
           \<and> component_size s ! nat p \<le> component_size s ! nat g
           \<and> repr s' ! nat p = g \<and> repr s' ! nat g = g
           \<and> component_size s' ! nat g = component_size s ! nat rx + component_size s ! nat ry
           \<and> component_size s' ! nat p = 0
           \<and> (component_size s ! nat rx < component_size s ! nat ry \<longrightarrow> repr s' ! nat rx = ry)
           \<and> (component_size s ! nat ry < component_size s ! nat rx \<longrightarrow> repr s' ! nat ry = rx)"
proof -
  have inv: "uf_inv n s" using assms(1) by (rule reachable_inv)
  define g where "g = (if component_size s ! nat ry > component_size s ! nat rx then ry else rx)"
  define p where "p = (if component_size s ! nat ry > component_size s ! nat rx then rx else ry)"
  obtain s' where s': "merge s x y = Some (Inr s')" "repr s' ! nat p = g" "repr s' ! nat g = g"
      "component_size s' ! nat g = component_size s ! nat rx + component_size s ! nat ry"
      "component_size s' ! nat p = 0"
    using merge_link_result[OF inv assms(6,7,8) g_def p_def] by blast
  have "(g, p) = (rx, ry) \<or> (g, p) = (ry, rx)" by (simp add: g_def p_def)
  moreover have "component_size s ! nat p \<le> component_size s ! nat g" by (simp add: g_def p_def)
  moreover have "component_size s ! nat rx < component_size s ! nat ry \<longrightarrow> repr s' ! nat rx = ry"
    using s'(2) by (auto simp: g_def p_def split: if_splits)
  moreover have "component_size s ! nat ry < component_size s ! nat rx \<longrightarrow> repr s' ! nat ry = rx"
    using s'(2) by (auto simp: g_def p_def split: if_splits)
  ultimately show ?thesis using s' by blast
qed

text \<open>
  After the first merge of the scenario, \<^verbatim>\<open>merge(2, 1)\<close> meets the component of 2 (one
  element) and that of 1 (two elements, representative 0): 2 is re-pointed to 0.
\<close>

theorem merge_by_size_witness:
  "reachable 5 scenario1 \<and> root_of (repr scenario1) 2 2 \<and> root_of (repr scenario1) 1 0
   \<and> component_size scenario1 ! nat 2 < component_size scenario1 ! nat 0
   \<and> (\<exists>s'. merge scenario1 2 1 = Some (Inr s') \<and> repr s' ! nat 2 = 0 \<and> repr s' ! nat 0 = 0
          \<and> component_size s' ! nat 0 = 3 \<and> component_size s' ! nat 2 = 0)"
proof -
  have c: "component_size scenario1 ! nat 2 = 1" "component_size scenario1 ! nat 0 = 2"
    by (simp_all add: scenario1_def)
  obtain s' g p where t: "merge scenario1 2 1 = Some (Inr s')"
      "(g, p) = (2, 0) \<or> (g, p) = (0, 2)"
      "component_size scenario1 ! nat p \<le> component_size scenario1 ! nat g"
      "repr s' ! nat p = g" "repr s' ! nat g = g"
      "component_size s' ! nat g = component_size scenario1 ! nat 2 + component_size scenario1 ! nat 0"
      "component_size s' ! nat p = 0"
    using merge_by_size[OF scenario_reachable(1) _ _ _ _ scenario1_roots(2,1)] by auto
  have "g = 0 \<and> p = 2" using t(2,3) c by auto
  then show ?thesis using t c scenario_reachable(1) scenario1_roots by auto
qed

text \<open>
  Claim C6. When \<^verbatim>\<open>get(x, y)\<close> (the specification's \<open>same\<close>) is true, \<^verbatim>\<open>merge(x, y)\<close>
  returns and changes nothing that can be observed: the stored sizes, the additional
  information and the component count are as before, and for all valid identifiers
  \<^verbatim>\<open>size(u)\<close> and \<^verbatim>\<open>get(u, v)\<close> return the same values after the call as before it.
\<close>

theorem merge_same_component_noop:
  assumes "reachable n s" and "0 \<le> x" "x < n" and "0 \<le> y" "y < n"
    and "get s x y = Some (Inr (True, t))"
  shows "\<exists>s'. merge s x y = Some (Inr s')
           \<and> component_size s' = component_size s \<and> additionalInfo s' = additionalInfo s
           \<and> count_islands s' = count_islands s
           \<and> (\<forall>u. 0 \<le> u \<and> u < n \<longrightarrow>
                 (\<exists>k t1 t2. size_uf s u = Some (Inr (k, t1)) \<and> size_uf s' u = Some (Inr (k, t2))))
           \<and> (\<forall>u v. 0 \<le> u \<and> u < n \<and> 0 \<le> v \<and> v < n \<longrightarrow>
                 (\<exists>b t1 t2. get s u v = Some (Inr (b, t1)) \<and> get s' u v = Some (Inr (b, t2))))"
proof -
  have inv: "uf_inv n s" using assms(1) by (rule reachable_inv)
  obtain r where r: "root_of (repr s) x r" "root_of (repr s) y r"
    using get_True_same_root[OF inv assms(6)] by blast
  obtain s' where s': "merge s x y = Some (Inr s')" "uf_inv n s'"
      "\<forall>b q. root_of (repr s') b q \<longleftrightarrow> root_of (repr s) b q"
      "component_size s' = component_size s" "additionalInfo s' = additionalInfo s"
    using merge_same[OF inv r] by blast
  have sz: "\<forall>u. 0 \<le> u \<and> u < n \<longrightarrow>
      (\<exists>k t1 t2. size_uf s u = Some (Inr (k, t1)) \<and> size_uf s' u = Some (Inr (k, t2)))"
  proof (intro allI impI)
    fix u assume "0 \<le> u \<and> u < n"
    then obtain ru where ru: "root_of (repr s) u ru"
      using uf_inv_total[OF inv] in_range_valid[OF inv] by blast
    then have ru': "root_of (repr s') u ru" using s'(3) by blast
    show "\<exists>k t1 t2. size_uf s u = Some (Inr (k, t1)) \<and> size_uf s' u = Some (Inr (k, t2))"
      using size_uf_value[OF inv ru] size_uf_value[OF s'(2) ru'] s'(4) by auto
  qed
  have gt: "\<forall>u v. 0 \<le> u \<and> u < n \<and> 0 \<le> v \<and> v < n \<longrightarrow>
      (\<exists>b t1 t2. get s u v = Some (Inr (b, t1)) \<and> get s' u v = Some (Inr (b, t2)))"
  proof (intro allI impI)
    fix u v assume "0 \<le> u \<and> u < n \<and> 0 \<le> v \<and> v < n"
    then obtain ru rv where ru: "root_of (repr s) u ru" "root_of (repr s) v rv"
      using uf_inv_total[OF inv] in_range_valid[OF inv] by blast
    then have ru': "root_of (repr s') u ru" "root_of (repr s') v rv" using s'(3) by blast+
    show "\<exists>b t1 t2. get s u v = Some (Inr (b, t1)) \<and> get s' u v = Some (Inr (b, t2))"
      using get_value[OF inv ru] get_value[OF s'(2) ru'] by auto
  qed
  have "count_islands s' = count_islands s" using s'(4) by (simp add: count_islands_def)
  then show ?thesis using s'(1,4,5) sz gt by blast
qed

text \<open>
  In the scenario 1 and 3 are in the same component; \<^verbatim>\<open>merge(1, 3)\<close> leaves the sizes
  as they are, and \<^verbatim>\<open>size(3)\<close> is the same before and after.
\<close>

theorem merge_same_component_noop_witness:
  "reachable 5 scenario3
   \<and> (\<exists>t. get scenario3 1 3 = Some (Inr (True, t)))
   \<and> (\<exists>s'. merge scenario3 1 3 = Some (Inr s') \<and> component_size s' = [4, 0, 0, 0, 1]
          \<and> (\<exists>k t1 t2. size_uf scenario3 3 = Some (Inr (k, t1))
                \<and> size_uf s' 3 = Some (Inr (k, t2))))"
proof -
  obtain s' where t: "merge scenario3 1 3 = Some (Inr s')"
      "component_size s' = component_size scenario3"
      "\<forall>u. 0 \<le> u \<and> u < 5 \<longrightarrow>
         (\<exists>k t1 t2. size_uf scenario3 u = Some (Inr (k, t1)) \<and> size_uf s' u = Some (Inr (k, t2)))"
    using merge_same_component_noop[OF scenario_reachable(3) _ _ _ _ scenario3_get_1_3] by auto
  have "0 \<le> (3::int) \<and> (3::int) < 5" by simp
  then have "\<exists>k t1 t2. size_uf scenario3 3 = Some (Inr (k, t1)) \<and> size_uf s' 3 = Some (Inr (k, t2))"
    using t(3) by blast
  moreover have "component_size s' = [4, 0, 0, 0, 1]" using t(2) by (simp add: scenario3_def)
  ultimately show ?thesis using t(1) scenario_reachable(3) scenario3_get_1_3 by blast
qed

text \<open>
  Claim C7, as the code has it. No operation checks an identifier. On a structure built
  by the constructor and the operations, an identifier outside \<open>[0, n)\<close> makes the
  first access to \<^verbatim>\<open>repr\<close> in \<^verbatim>\<open>find\<close>, and so in \<^verbatim>\<open>size\<close>, \<^verbatim>\<open>merge\<close> and
  \<^verbatim>\<open>get\<close>, an unchecked access outside the vector: undefined behaviour, not an
  \<open>IndexOutOfRange\<close> error.
\<close>

theorem out_of_range_undefined:
  assumes "reachable n s" and "\<not> (0 \<le> a \<and> a < n)"
  shows "find_uf s a = Some (Inl UndefinedBehaviour)
       \<and> size_uf s a = Some (Inl UndefinedBehaviour)
       \<and> merge s a b = Some (Inl UndefinedBehaviour)
       \<and> merge s b a = Some (Inl UndefinedBehaviour)
       \<and> get s a b = Some (Inl UndefinedBehaviour)
       \<and> get s b a = Some (Inl UndefinedBehaviour)"
proof -
  have inv: "uf_inv n s" using assms(1) by (rule reachable_inv)
  have a: "\<not> in_range (repr s) a" using assms(2) in_range_valid[OF inv] by simp
  show ?thesis
    using find_uf_out_of_range[OF a] size_uf_out_of_range[OF a]
      merge_out_of_range[OF inv a] get_out_of_range[OF inv a] by simp
qed

text \<open>On the empty structure, and with \<open>-1\<close> or 5 on the scenario's five elements.\<close>

theorem out_of_range_undefined_witness:
  "reachable 0 (union_find 0) \<and> \<not> (0 \<le> (0::int) \<and> (0::int) < 0)
   \<and> find_uf (union_find 0) 0 = Some (Inl UndefinedBehaviour)
   \<and> size_uf (union_find 0) 0 = Some (Inl UndefinedBehaviour)
   \<and> merge (union_find 0) 0 0 = Some (Inl UndefinedBehaviour)
   \<and> find_uf scenario3 (- 1) = Some (Inl UndefinedBehaviour)
   \<and> merge scenario3 1 5 = Some (Inl UndefinedBehaviour)"
  using out_of_range_undefined[OF reachable.r_new, of 0 0 0]
    out_of_range_undefined[OF scenario_reachable(3), of "- 1" 0]
    out_of_range_undefined[OF scenario_reachable(3), of 5 1]
  by (simp add: reachable.r_new)

text \<open>
  The claim as the specification states it fails on the structure with no elements:
  \<^verbatim>\<open>find(0)\<close> reads \<^verbatim>\<open>repr[0]\<close> of an empty vector.
\<close>

theorem index_error_counterexample:
  "find_uf (union_find 0) 0 = Some (Inl UndefinedBehaviour)
   \<and> find_uf (union_find 0) 0 \<noteq> Some (Inl IndexOutOfRange)"
  by (simp add: union_find_0 find_uf.simps in_range_def)

text \<open>
  Claim C8, as the code has it. The constructor never fails. For \<open>n \<ge> 0\<close> it builds
  \<open>n\<close> components of one element each, a structure that satisfies the invariant (for
  \<open>n = 0\<close> the empty one); a negative count is not rejected: the loop body never runs,
  and the result is the same empty structure.
\<close>

theorem constructor_total:
  "uf_inv n (union_find n)
   \<and> count_islands (union_find n) = int (nat n)
   \<and> length (repr (union_find n)) = nat n
   \<and> (\<forall>i. 0 \<le> i \<and> i < n \<longrightarrow>
         repr (union_find n) ! nat i = i \<and> component_size (union_find n) ! nat i = 1
         \<and> additionalInfo (union_find n) ! nat i = (i, i))
   \<and> (n \<le> 0 \<longrightarrow>
         union_find n = \<lparr>component_size = [], repr = [], additionalInfo = []\<rparr>)"
proof -
  have "\<forall>i. 0 \<le> i \<and> i < n \<longrightarrow>
         repr (union_find n) ! nat i = i \<and> component_size (union_find n) ! nat i = 1
         \<and> additionalInfo (union_find n) ! nat i = (i, i)"
    by (simp add: union_find_closed nth_upto0)
  moreover have "n \<le> 0 \<longrightarrow>
         union_find n = \<lparr>component_size = [], repr = [], additionalInfo = []\<rparr>"
    by (simp add: union_find_closed)
  moreover have "length (repr (union_find n)) = nat n"
    by (simp add: union_find_closed)
  ultimately show ?thesis using union_find_inv count_islands_new by blast
qed

text \<open>With two elements, with none, and with the count \<open>-3\<close>.\<close>

theorem constructor_total_witness:
  "repr (union_find 2) ! nat 1 = 1 \<and> component_size (union_find 2) ! nat 1 = 1
   \<and> additionalInfo (union_find 2) ! nat 1 = (1, 1)
   \<and> count_islands (union_find 2) = 2
   \<and> union_find 0 = \<lparr>component_size = [], repr = [], additionalInfo = []\<rparr>
   \<and> uf_inv 0 (union_find 0)
   \<and> union_find (- 3) = \<lparr>component_size = [], repr = [], additionalInfo = []\<rparr>"
proof -
  have "0 \<le> (1::int) \<and> (1::int) < 2" by simp
  then have "repr (union_find 2) ! nat 1 = 1 \<and> component_size (union_find 2) ! nat 1 = 1
      \<and> additionalInfo (union_find 2) ! nat 1 = (1, 1)"
    using constructor_total[of 2] by blast
  moreover have "count_islands (union_find 2) = 2" using constructor_total[of 2] by simp
  moreover have "union_find 0 = \<lparr>component_size = [], repr = [], additionalInfo = []\<rparr>"
    using constructor_total[of 0] by simp
  moreover have "uf_inv 0 (union_find 0)"
    using constructor_total[of 0] by blast
  moreover have "union_find (- 3) = \<lparr>component_size = [], repr = [], additionalInfo = []\<rparr>"
    using constructor_total[of "- 3"] by simp
  ultimately show ?thesis by blast
qed

text \<open>
  The claim as the specification states it fails for the count \<open>-1\<close>: the constructor
  returns the empty structure.
\<close>

theorem negative_count_counterexample:
  "union_find (- 1) = \<lparr>component_size = [], repr = [], additionalInfo = []\<rparr>"
  by (simp add: union_find_closed)

text \<open>
  Claim C9. On a structure built by the constructor and the operations no call of
  \<^verbatim>\<open>find\<close>, \<^verbatim>\<open>size\<close>, \<^verbatim>\<open>merge\<close> or \<^verbatim>\<open>get\<close> runs forever, whatever its arguments;
  for valid identifiers each of them returns normally, and the walk along \<^verbatim>\<open>repr\<close>
  from a valid element ends at a fixed point, which is what \<^verbatim>\<open>find\<close> returns.
  (\<^verbatim>\<open>count_islands\<close> is a loop over a vector, a structural recursion in this model.)
\<close>

theorem operations_terminate:
  assumes "reachable n s"
  shows "(\<forall>a. find_uf s a \<noteq> None) \<and> (\<forall>a. size_uf s a \<noteq> None)
       \<and> (\<forall>x y. merge s x y \<noteq> None) \<and> (\<forall>u v. get s u v \<noteq> None)
       \<and> (\<forall>a. 0 \<le> a \<and> a < n \<longrightarrow>
             (\<exists>r. root_of (repr s) a r \<and> repr s ! nat r = r
                  \<and> (\<exists>s'. find_uf s a = Some (Inr (r, s')))
                  \<and> (\<exists>s'. size_uf s a = Some (Inr (component_size s ! nat r, s')))))
       \<and> (\<forall>x y. 0 \<le> x \<and> x < n \<and> 0 \<le> y \<and> y < n \<longrightarrow>
             (\<exists>s'. merge s x y = Some (Inr s')) \<and> (\<exists>b s'. get s x y = Some (Inr (b, s'))))"
proof -
  have inv: "uf_inv n s" using assms by (rule reachable_inv)
  note v = in_range_valid[OF inv]
  have valid1: "\<And>a. in_range (repr s) a \<Longrightarrow>
      \<exists>r. root_of (repr s) a r \<and> repr s ! nat r = r
          \<and> (\<exists>s'. find_uf s a = Some (Inr (r, s')))
          \<and> (\<exists>s'. size_uf s a = Some (Inr (component_size s ! nat r, s')))"
  proof -
    fix a assume a: "in_range (repr s) a"
    obtain r s' where f: "find_uf s a = Some (Inr (r, s'))" "root_of (repr s) a r"
      using find_uf_inv[OF inv a] by blast
    then show "\<exists>r. root_of (repr s) a r \<and> repr s ! nat r = r
          \<and> (\<exists>s'. find_uf s a = Some (Inr (r, s')))
          \<and> (\<exists>s'. size_uf s a = Some (Inr (component_size s ! nat r, s')))"
      using root_of_is_root[OF f(2)] size_uf_value[OF inv f(2)] by blast
  qed
  have valid2: "\<And>x y. in_range (repr s) x \<Longrightarrow> in_range (repr s) y \<Longrightarrow>
      (\<exists>s'. merge s x y = Some (Inr s')) \<and> (\<exists>b s'. get s x y = Some (Inr (b, s')))"
  proof -
    fix x y assume x: "in_range (repr s) x" and y: "in_range (repr s) y"
    obtain rx ry where r: "root_of (repr s) x rx" "root_of (repr s) y ry"
      using uf_inv_total[OF inv x] uf_inv_total[OF inv y] by blast
    show "(\<exists>s'. merge s x y = Some (Inr s')) \<and> (\<exists>b s'. get s x y = Some (Inr (b, s')))"
      using merge_returns[OF inv x y] get_value[OF inv r] by blast
  qed
  have "\<And>a. find_uf s a \<noteq> None"
    using valid1 find_uf_out_of_range by (metis option.distinct(1))
  moreover have "\<And>a. size_uf s a \<noteq> None"
    using valid1 size_uf_out_of_range by (metis option.distinct(1))
  moreover have "\<And>x y. merge s x y \<noteq> None"
    using valid2 merge_out_of_range[OF inv] by (metis option.distinct(1))
  moreover have "\<And>u v. get s u v \<noteq> None"
    using valid2 get_out_of_range[OF inv] by (metis option.distinct(1))
  ultimately show ?thesis using valid1 valid2 v by simp
qed

text \<open>
  In the scenario, \<^verbatim>\<open>find(3)\<close> walks to the fixed point 0, and \<^verbatim>\<open>merge(3, 4)\<close> and
  \<^verbatim>\<open>get(3, 4)\<close> return.
\<close>

theorem operations_terminate_witness:
  "reachable 5 scenario3 \<and> find_uf scenario3 3 \<noteq> None
   \<and> (\<exists>r. root_of (repr scenario3) 3 r \<and> repr scenario3 ! nat r = r
          \<and> (\<exists>s'. find_uf scenario3 3 = Some (Inr (r, s'))))
   \<and> (\<exists>s'. merge scenario3 3 4 = Some (Inr s')) \<and> (\<exists>b s'. get scenario3 3 4 = Some (Inr (b, s')))"
proof -
  note t = operations_terminate[OF scenario_reachable(3)]
  have a: "0 \<le> (3::int) \<and> (3::int) < 5" and b: "0 \<le> (4::int) \<and> (4::int) < 5" by simp_all
  have "find_uf scenario3 3 \<noteq> None" using t by blast
  moreover have "\<exists>r. root_of (repr scenario3) 3 r \<and> repr scenario3 ! nat r = r
          \<and> (\<exists>s'. find_uf scenario3 3 = Some (Inr (r, s')))"
    using t a by blast
  moreover have "(\<exists>s'. merge scenario3 3 4 = Some (Inr s'))
      \<and> (\<exists>b s'. get scenario3 3 4 = Some (Inr (b, s')))"
    using t a b by blast
  ultimately show ?thesis using scenario_reachable(3) by blast
qed

text \<open>
  Claim C10. When \<^verbatim>\<open>merge(gravity, pebble)\<close> meets two different representatives
  \<open>rx\<close> (of the first argument) and \<open>ry\<close> (of the second), \<open>rx\<close> is re-pointed to
  \<open>ry\<close> exactly when the stored size of \<open>ry\<close> is strictly greater; otherwise, and so
  whenever the two sizes are equal, \<open>rx\<close> survives and \<open>ry\<close> is re-pointed to it.
\<close>

theorem merge_tie_keeps_first:
  assumes "reachable n s" and "0 \<le> x" "x < n" and "0 \<le> y" "y < n"
    and "root_of (repr s) x rx" and "root_of (repr s) y ry" and "rx \<noteq> ry"
  shows "\<exists>s'. merge s x y = Some (Inr s')
           \<and> (component_size s ! nat rx = component_size s ! nat ry \<longrightarrow>
                 repr s' ! nat ry = rx \<and> repr s' ! nat rx = rx)
           \<and> (component_size s ! nat ry \<le> component_size s ! nat rx \<longrightarrow>
                 repr s' ! nat ry = rx \<and> repr s' ! nat rx = rx)
           \<and> (component_size s ! nat ry > component_size s ! nat rx \<longrightarrow>
                 repr s' ! nat rx = ry \<and> repr s' ! nat ry = ry)
           \<and> (repr s' ! nat rx = ry \<longleftrightarrow>
                 component_size s ! nat ry > component_size s ! nat rx)"
proof -
  have inv: "uf_inv n s" using assms(1) by (rule reachable_inv)
  define g where "g = (if component_size s ! nat ry > component_size s ! nat rx then ry else rx)"
  define p where "p = (if component_size s ! nat ry > component_size s ! nat rx then rx else ry)"
  obtain s' where s': "merge s x y = Some (Inr s')" "repr s' ! nat p = g" "repr s' ! nat g = g"
    using merge_link_result[OF inv assms(6,7,8) g_def p_def] by blast
  show ?thesis
  proof (cases "component_size s ! nat ry > component_size s ! nat rx")
    case True
    then have "g = ry" "p = rx" by (simp_all add: g_def p_def)
    then show ?thesis using s' True by auto
  next
    case False
    then have "g = rx" "p = ry" by (simp_all add: g_def p_def)
    then show ?thesis using s' False assms(8) by auto
  qed
qed

text \<open>
  The third merge of the scenario meets two components of two elements each, with
  representatives 0 and 2: 0, the representative of the first argument, survives.
\<close>

theorem merge_tie_keeps_first_witness:
  "reachable 5 scenario2 \<and> root_of (repr scenario2) 1 0 \<and> root_of (repr scenario2) 2 2
   \<and> component_size scenario2 ! nat 0 = component_size scenario2 ! nat 2
   \<and> (\<exists>s'. merge scenario2 1 2 = Some (Inr s') \<and> repr s' ! nat 2 = 0 \<and> repr s' ! nat 0 = 0)"
proof -
  have c: "component_size scenario2 ! nat 0 = component_size scenario2 ! nat 2"
    by (simp add: scenario2_def)
  obtain s' where t: "merge scenario2 1 2 = Some (Inr s')"
      "component_size scenario2 ! nat 0 = component_size scenario2 ! nat 2 \<longrightarrow>
         repr s' ! nat 2 = 0 \<and> repr s' ! nat 0 = 0"
    using merge_tie_keeps_first[OF scenario_reachable(2) _ _ _ _ scenario2_roots] by auto
  then show ?thesis using c scenario_reachable(2) scenario2_roots by blast
qed

end
